theory Spec2Isabelle
  imports Main "HOL-Library.Word"
begin

section \<open>Resources and keys (pilot/pkg/status/resourcelock.go)\<close>

text \<open>
  Modelled from the spec: the resource-type descriptor. The Go type is
  \<^verbatim>\<open>schema.GroupVersionResource\<close> of the Kubernetes library, a struct of three strings;
  its declaration is not part of the package.
\<close>

record GroupVersionResourceT =
  Group :: string
  Version :: string
  Resource :: string

text \<open>
  \<^verbatim>\<open>lockResource\<close> has the descriptor, the namespace and the name.
\<close>

record lockResource =
  GroupVersionResource :: GroupVersionResourceT
  Namespace :: string
  Name :: string

text \<open>
  Modelled from the spec: \<^verbatim>\<open>Resource\<close>, declared in another file of the package. It has the
  three fields of the key and the generation, a string. The record extends the one of the
  key, so that the three shared fields keep the names they have in the source.
\<close>

record Resource = lockResource +
  Generation :: string

definition convert :: "Resource \<Rightarrow> lockResource" where
  "convert i =
     \<lparr>GroupVersionResource = GroupVersionResource i,
      Namespace = Namespace i,
      Name = Name i\<rparr>"

text \<open>The zero value \<^verbatim>\<open>Resource{}\<close>: every string empty.\<close>

definition zeroResource :: Resource where
  "zeroResource =
     \<lparr>GroupVersionResource = \<lparr>Group = [], Version = [], Resource = []\<rparr>,
      Namespace = [], Name = [], Generation = []\<rparr>"

section \<open>WorkQueue\<close>

text \<open>
  \<^verbatim>\<open>cacheEntry\<close>: the resource as first pushed, and the latest progress of each controller.
  Controllers are map keys by pointer identity: the type \<open>'c\<close>. The progress values are
  \<^verbatim>\<open>interface{}\<close>: the type \<open>'u\<close>. A Go map has no iteration order: a partial function.
  The map is held by value here. In Go the entry and the caller of \<^verbatim>\<open>Pop\<close> share one map
  object; \<open>Pop\<close> below returns its contents at the time of the call.
\<close>

record ('c, 'u) cacheEntry =
  cacheResource :: Resource
  perControllerStatus :: "'c \<rightharpoonup> 'u"

text \<open>
  \<^verbatim>\<open>WorkQueue\<close>: the slice \<^verbatim>\<open>tasks\<close> and the map \<^verbatim>\<open>cache\<close>. Every method holds \<^verbatim>\<open>wq.lock\<close>
  from its first to its last access, so each is one atomic function on this record. The hook
  \<^verbatim>\<open>OnPush\<close> is nil in the queue that \<^verbatim>\<open>NewWorkerPool\<close> builds and is left out.
\<close>

record ('c, 'u) WorkQueue =
  tasks :: "lockResource list"
  cache :: "lockResource \<rightharpoonup> ('c, 'u) cacheEntry"

definition Push :: "('c, 'u) WorkQueue \<Rightarrow> Resource \<Rightarrow> 'c \<Rightarrow> 'u \<Rightarrow> ('c, 'u) WorkQueue" where
  "Push wq target ctl progress =
     (let key = convert target in
      case cache wq key of
        Some item \<Rightarrow>
          wq\<lparr>cache := (cache wq)(key \<mapsto>
                item\<lparr>perControllerStatus := (perControllerStatus item)(ctl \<mapsto> progress)\<rparr>)\<rparr>
      | None \<Rightarrow>
          wq\<lparr>cache := (cache wq)(key \<mapsto>
                \<lparr>cacheResource = target, perControllerStatus = [ctl \<mapsto> progress]\<rparr>),
             tasks := tasks wq @ [key]\<rparr>)"

text \<open>
  \<^verbatim>\<open>Pop\<close>: the loop over the index \<open>i\<close>. At the first key outside the exclusion set the key is
  cut out of the slice (\<^verbatim>\<open>append(tasks[:i], tasks[i+1:]...)\<close>) and the function returns: the
  entry's resource and map, or \<^verbatim>\<open>Resource{}, nil\<close> when the cache has no entry for the key.
  The nil map is \<open>None\<close>. The third component is the queue after the call.
\<close>

function PopFrom ::
  "nat \<Rightarrow> lockResource set \<Rightarrow> ('c, 'u) WorkQueue
     \<Rightarrow> Resource \<times> ('c \<rightharpoonup> 'u) option \<times> ('c, 'u) WorkQueue" where
  "PopFrom i exclusion wq =
     (if i < length (tasks wq) then
        (if tasks wq ! i \<notin> exclusion then
           (let t = cache wq (tasks wq ! i);
                wq' = wq\<lparr>tasks := take i (tasks wq) @ drop (i + 1) (tasks wq)\<rparr>
            in case t of
                 None \<Rightarrow> (zeroResource, None, wq')
               | Some e \<Rightarrow> (cacheResource e, Some (perControllerStatus e), wq'))
         else PopFrom (i + 1) exclusion wq)
      else (zeroResource, None, wq))"
  by pat_completeness auto
termination
  by (relation "measure (\<lambda>(i, exclusion, wq). length (tasks wq) - i)") auto

declare PopFrom.simps [simp del]

definition Pop ::
  "('c, 'u) WorkQueue \<Rightarrow> lockResource set
     \<Rightarrow> Resource \<times> ('c \<rightharpoonup> 'u) option \<times> ('c, 'u) WorkQueue" where
  "Pop wq exclusion = PopFrom 0 exclusion wq"

definition Length :: "('c, 'u) WorkQueue \<Rightarrow> nat" where
  "Length wq = length (tasks wq)"

definition Delete :: "('c, 'u) WorkQueue \<Rightarrow> Resource \<Rightarrow> ('c, 'u) WorkQueue" where
  "Delete wq target = wq\<lparr>cache := (cache wq)(convert target := None)\<rparr>"

text \<open>The queue of \<^verbatim>\<open>NewWorkerPool\<close>: no task, no entry.\<close>

definition emptyQueue :: "('c, 'u) WorkQueue" where
  "emptyQueue = \<lparr>tasks = [], cache = Map.empty\<rparr>"

text \<open>A run of pushes, in order.\<close>

fun Pushes ::
  "('c, 'u) WorkQueue \<Rightarrow> (Resource \<times> 'c \<times> 'u) list \<Rightarrow> ('c, 'u) WorkQueue" where
  "Pushes wq [] = wq"
| "Pushes wq ((target, ctl, progress) # ps) = Pushes (Push wq target ctl progress) ps"

text \<open>Any interleaving of the three mutating methods is a list of calls.\<close>

datatype ('c, 'u) queueOp = OpPush Resource 'c 'u | OpPop "lockResource set" | OpDelete Resource

fun applyOp :: "('c, 'u) WorkQueue \<Rightarrow> ('c, 'u) queueOp \<Rightarrow> ('c, 'u) WorkQueue" where
  "applyOp wq (OpPush target ctl progress) = Push wq target ctl progress"
| "applyOp wq (OpPop exclusion) = snd (snd (Pop wq exclusion))"
| "applyOp wq (OpDelete target) = Delete wq target"

fun applyOps :: "('c, 'u) WorkQueue \<Rightarrow> ('c, 'u) queueOp list \<Rightarrow> ('c, 'u) WorkQueue" where
  "applyOps wq [] = wq"
| "applyOps wq (x # xs) = applyOps (applyOp wq x) xs"

text \<open>
  The calls in which every \<^verbatim>\<open>Delete\<close> names a key that is not in the pending sequence at
  the time of the call.
\<close>

fun deletesUnqueued :: "('c, 'u) WorkQueue \<Rightarrow> ('c, 'u) queueOp list \<Rightarrow> bool" where
  "deletesUnqueued wq [] = True"
| "deletesUnqueued wq (OpDelete target # xs) =
     (convert target \<notin> set (tasks wq) \<and> deletesUnqueued (Delete wq target) xs)"
| "deletesUnqueued wq (x # xs) = deletesUnqueued (applyOp wq x) xs"

section \<open>The work of one task: get, merge, write (lines 203 to 220)\<close>

text \<open>
  \<^verbatim>\<open>strconv.FormatInt(i, 10)\<close> of the Go library: the decimal digits, with a minus sign for a
  negative number.
\<close>

definition digits :: string where
  "digits = ''0123456789''"

fun formatUint :: "nat \<Rightarrow> string" where
  "formatUint n = (if n < 10 then [digits ! n] else formatUint (n div 10) @ [digits ! (n mod 10)])"

declare formatUint.simps [simp del]

definition FormatInt :: "int \<Rightarrow> string" where
  "FormatInt i = (if i < 0 then CHR ''-'' # formatUint (nat (- i)) else formatUint (nat i))"

text \<open>
  Modelled from the spec: \<^verbatim>\<open>config.Config\<close>, of which the worker reads the generation (an
  \<^verbatim>\<open>int64\<close>) and the status. The other fields travel with the record unread.
\<close>

record 'st Config =
  cfgGeneration :: "64 word"
  cfgStatus :: 'st

text \<open>
  The second argument of the writer is an \<^verbatim>\<open>interface{}\<close>. The values that concern this file
  are nil, a \<^verbatim>\<open>GenerationProvider\<close> and the payload a provider unwraps to: three dynamic types,
  three constructors. A \<^verbatim>\<open>GenerationProvider\<close> variable is nil or holds a provider:
  \<open>'x option\<close>.
\<close>

datatype ('x, 'p) any = NilV | GenerationProviderV 'x | PayloadV 'p

definition toAny :: "'x option \<Rightarrow> ('x, 'p) any" where
  "toAny x = (case x of None \<Rightarrow> NilV | Some v \<Rightarrow> GenerationProviderV v)"

text \<open>
  \<^verbatim>\<open>IstioGenerationProvider\<close> wraps a pointer to an \<^verbatim>\<open>IstioStatus\<close>, of which the file uses
  the field \<^verbatim>\<open>ObservedGeneration\<close>. The status is held by value: the setter returns the
  provider with the field set.
\<close>

record IstioStatus =
  ObservedGeneration :: "64 word"

datatype IstioGenerationProvider = IstioGenerationProvider IstioStatus

fun SetObservedGeneration :: "64 word \<Rightarrow> IstioGenerationProvider \<Rightarrow> IstioGenerationProvider" where
  "SetObservedGeneration inp (IstioGenerationProvider s) =
     IstioGenerationProvider (s\<lparr>ObservedGeneration := inp\<rparr>)"


text \<open>A method call on a nil interface value panics.\<close>

datatype panic = NilDereference

text \<open>What one task leaves behind: the warnings logged and the call of the writer, if any.\<close>

record ('st, 'x, 'p) outcome =
  warnings :: "string list"
  written :: "('st Config \<times> ('x, 'p) any) option"


text \<open>
  The body of the worker between the two critical sections. Its inputs from outside the file
  are parameters: \<open>fn\<close> is the merge function of a controller (\<^verbatim>\<open>c.fn\<close>), \<open>GetOGProvider\<close>
  returns the pair of Go (provider, error), \<open>setObservedGeneration\<close> is the method of the
  provider. \<open>cfg\<close> is what the getter returned (\<open>None\<close> is nil) and \<open>items\<close> the entries of
  the popped map in the order of the range loop. The writer receives the config the getter
  returned. Whether a provider shares its status with that config, so that the setter and the
  merges show in it, is decided by \<^verbatim>\<open>GetOGProvider\<close>, outside this file; statuses are
  values here.
\<close>

definition process ::
  "('c \<Rightarrow> 'x option \<Rightarrow> 'u \<Rightarrow> 'x option) \<Rightarrow> ('st \<Rightarrow> 'x option \<times> string option)
     \<Rightarrow> (64 word \<Rightarrow> 'x \<Rightarrow> 'x) \<Rightarrow> Resource \<Rightarrow> 'st Config option \<Rightarrow> ('c \<times> 'u) list
     \<Rightarrow> panic + ('st, 'x, 'p) outcome" where
  "process fn GetOGProvider setObservedGeneration target cfg items =
     (case cfg of
        None \<Rightarrow> Inr \<lparr>warnings = [], written = None\<rparr>
      | Some c \<Rightarrow>
          if FormatInt (sint (cfgGeneration c)) = Generation target then
            (let (x, err) = GetOGProvider (cfgStatus c) in
             case err of
               Some e \<Rightarrow>
                 Inr \<lparr>warnings = [''status has no observed generation, overwriting: '' @ e],
                      written = Some (c, toAny (fold (\<lambda>(ctl, i) x. fn ctl x i) items x))\<rparr>
             | None \<Rightarrow>
                 (case x of
                    None \<Rightarrow> Inl NilDereference
                  | Some v \<Rightarrow>
                      Inr \<lparr>warnings = [],
                           written = Some (c, toAny (fold (\<lambda>(ctl, i) x. fn ctl x i) items
                                        (Some (setObservedGeneration (cfgGeneration c) v))))\<rparr>))
          else Inr \<lparr>warnings = [], written = None\<rparr>)"

section \<open>WorkerPool\<close>

text \<open>
  A worker goroutine is at one of six places of the loop in \<^verbatim>\<open>maybeAddWorker\<close>:
  \<^item> \<open>Idle\<close>: at the top (line 184), not holding \<^verbatim>\<open>wp.lock\<close>;
  \<^item> \<open>Checked\<close>: holding the lock, the test of line 185 passed, before \<^verbatim>\<open>Pop\<close> (line 191);
  \<^item> \<open>Popped\<close>: holding the lock, \<^verbatim>\<open>Pop\<close> returned a resource other than the zero value,
    before \<^verbatim>\<open>Delete\<close> (line 199);
  \<^item> \<open>Working\<close>: the lock released, in the get, merge and write of lines 203 to 220;
  \<^item> \<open>Finished\<close>: before the lock is taken again to clear the mark (line 221);
  \<^item> \<open>Exited\<close>: returned (line 188).

  The local variable \<^verbatim>\<open>perControllerWork\<close> is a reference to the map object of the entry. The
  bookkeeping of the pool does not read it; it is an input of \<open>process\<close>, taken as the
  object is when the range loop runs.
\<close>

datatype worker =
    Idle
  | Checked
  | Popped Resource
  | Working Resource
  | Finished Resource
  | Exited

text \<open>
  The fields of \<^verbatim>\<open>WorkerPool\<close>. \<^verbatim>\<open>q\<close> is \<open>queue\<close> here. The two counters are \<^verbatim>\<open>uint\<close>,
  64 bits on the platforms the project builds for. \<open>lock\<close> is the worker holding \<^verbatim>\<open>wp.lock\<close>
  across several steps, if any; \<open>workers\<close> are the goroutines started so far, in the order of
  their start. The injected \<^verbatim>\<open>get\<close> and \<^verbatim>\<open>write\<close> are outside the state.
\<close>

record ('c, 'u) WorkerPool =
  queue :: "('c, 'u) WorkQueue"
  closing :: bool
  workerCount :: "64 word"
  maxWorkers :: "64 word"
  currentlyWorking :: "lockResource set"
  lock :: "nat option"
  workers :: "worker list"

definition NewWorkerPool :: "64 word \<Rightarrow> ('c, 'u) WorkerPool" where
  "NewWorkerPool m =
     \<lparr>queue = emptyQueue, closing = False, workerCount = 0, maxWorkers = m,
      currentlyWorking = {}, lock = None, workers = []\<rparr>"

text \<open>
  What can happen next. \<^verbatim>\<open>WorkerPool.Push\<close> is the queue's \<^verbatim>\<open>Push\<close> followed by
  \<^verbatim>\<open>maybeAddWorker\<close>: two events, since other goroutines run between them. The queue's methods
  take only the queue's lock, so \<open>CallPush\<close> and \<open>CallDelete\<close> can happen while a worker
  holds \<^verbatim>\<open>wp.lock\<close>. \<open>Cancel\<close> is the goroutine of \<^verbatim>\<open>Run\<close> setting \<^verbatim>\<open>closing\<close>. \<open>Step t\<close> is the
  next step of worker \<open>t\<close>.
\<close>

datatype ('c, 'u) event =
    CallPush Resource 'c 'u
  | CallMaybeAddWorker
  | CallDelete Resource
  | Cancel
  | Step nat

text \<open>
  Lines 175 to 182 of \<^verbatim>\<open>maybeAddWorker\<close>. The critical section reads the queue once
  (\<^verbatim>\<open>Length\<close>), so it is one step, possible when the lock is free. \<open>None\<close>: the caller waits
  for the lock. The new goroutine starts at the top of the loop.
\<close>

definition maybeAddWorker :: "('c, 'u) WorkerPool \<Rightarrow> ('c, 'u) WorkerPool option" where
  "maybeAddWorker wp =
     (if lock wp \<noteq> None then None
      else if workerCount wp \<ge> maxWorkers wp \<or> Length (queue wp) = 0 then Some wp
      else Some (wp\<lparr>workerCount := workerCount wp + 1, workers := workers wp @ [Idle]\<rparr>))"

text \<open>
  The loop of the goroutine (lines 183 to 224), one queue operation per step. \<open>None\<close>: the
  worker waits for the lock, or there is no such worker, or it has returned. The step from
  \<open>Working\<close> is the call of \<open>process\<close>: it does not touch the pool.
\<close>

definition workerStep :: "nat \<Rightarrow> ('c, 'u) WorkerPool \<Rightarrow> ('c, 'u) WorkerPool option" where
  "workerStep t wp =
     (if t \<ge> length (workers wp) then None
      else case workers wp ! t of
        Idle \<Rightarrow>
          if lock wp \<noteq> None then None
          else if closing wp \<or> Length (queue wp) = 0 then
            Some (wp\<lparr>workerCount := workerCount wp - 1, workers := (workers wp)[t := Exited]\<rparr>)
          else Some (wp\<lparr>lock := Some t, workers := (workers wp)[t := Checked]\<rparr>)
      | Checked \<Rightarrow>
          (case Pop (queue wp) (currentlyWorking wp) of
             (target, perControllerWork, q') \<Rightarrow>
               if target = zeroResource then
                 Some (wp\<lparr>queue := q', lock := None, workers := (workers wp)[t := Idle]\<rparr>)
               else
                 Some (wp\<lparr>queue := q',
                          workers := (workers wp)[t := Popped target]\<rparr>))
      | Popped target \<Rightarrow>
          Some (wp\<lparr>queue := Delete (queue wp) target,
                   currentlyWorking := insert (convert target) (currentlyWorking wp),
                   lock := None,
                   workers := (workers wp)[t := Working target]\<rparr>)
      | Working target \<Rightarrow>
          Some (wp\<lparr>workers := (workers wp)[t := Finished target]\<rparr>)
      | Finished target \<Rightarrow>
          if lock wp \<noteq> None then None
          else Some (wp\<lparr>currentlyWorking := currentlyWorking wp - {convert target},
                        workers := (workers wp)[t := Idle]\<rparr>)
      | Exited \<Rightarrow> None)"

fun exec :: "('c, 'u) event \<Rightarrow> ('c, 'u) WorkerPool \<Rightarrow> ('c, 'u) WorkerPool option" where
  "exec (CallPush target ctl progress) wp = Some (wp\<lparr>queue := Push (queue wp) target ctl progress\<rparr>)"
| "exec CallMaybeAddWorker wp = maybeAddWorker wp"
| "exec (CallDelete target) wp = Some (wp\<lparr>queue := Delete (queue wp) target\<rparr>)"
| "exec Cancel wp = (if lock wp \<noteq> None then None else Some (wp\<lparr>closing := True\<rparr>))"
| "exec (Step t) wp = workerStep t wp"

text \<open>A schedule is a list of events; it runs as far as every event is possible.\<close>

fun run :: "('c, 'u) event list \<Rightarrow> ('c, 'u) WorkerPool \<Rightarrow> ('c, 'u) WorkerPool option" where
  "run [] wp = Some wp"
| "run (e # es) wp = (case exec e wp of None \<Rightarrow> None | Some wp' \<Rightarrow> run es wp')"

section \<open>Vocabulary of the invariants\<close>

text \<open>Every entry of the cache sits under the key of its own resource.\<close>

definition keyed :: "('c, 'u) WorkQueue \<Rightarrow> bool" where
  "keyed wq = (\<forall>k e. cache wq k = Some e \<longrightarrow> convert (cacheResource e) = k)"

definition pendingOnce :: "('c, 'u) WorkQueue \<Rightarrow> bool" where
  "pendingOnce wq = (distinct (tasks wq) \<and> set (tasks wq) \<subseteq> dom (cache wq))"

fun alive :: "worker \<Rightarrow> bool" where
  "alive Exited = False"
| "alive w = True"

definition countInv :: "('c, 'u) WorkerPool \<Rightarrow> bool" where
  "countInv wp = (workerCount wp \<le> maxWorkers wp
     \<and> unat (workerCount wp) = length (filter alive (workers wp)))"

text \<open>The key a worker has marked in flight, and whether it holds the lock.\<close>

fun holding :: "worker \<Rightarrow> lockResource option" where
  "holding (Working target) = Some (convert target)"
| "holding (Finished target) = Some (convert target)"
| "holding w = None"

fun holdsLock :: "worker \<Rightarrow> bool" where
  "holdsLock Checked = True"
| "holdsLock (Popped target) = True"
| "holdsLock w = False"

definition locks :: "worker list \<Rightarrow> nat option \<Rightarrow> bool" where
  "locks ws l = (\<forall>t < length ws. holdsLock (ws ! t) \<longrightarrow> l = Some t)"

definition marks :: "worker list \<Rightarrow> lockResource set \<Rightarrow> bool" where
  "marks ws cw =
     ((\<forall>t < length ws. \<forall>r. ws ! t = Popped r \<longrightarrow> convert r \<notin> cw)
    \<and> (\<forall>k. k \<in> cw \<longleftrightarrow> (\<exists>t < length ws. holding (ws ! t) = Some k))
    \<and> (\<forall>i < length ws. \<forall>j < length ws.
          i \<noteq> j \<longrightarrow> holding (ws ! i) = None \<or> holding (ws ! i) \<noteq> holding (ws ! j)))"

definition poolInv :: "('c, 'u) WorkerPool \<Rightarrow> bool" where
  "poolInv wp = (keyed (queue wp) \<and> locks (workers wp) (lock wp)
     \<and> marks (workers wp) (currentlyWorking wp))"

text \<open>Events other than a \<^verbatim>\<open>Delete\<close> of a resource with the key of the zero value.\<close>

fun sparesZeroKey :: "('c, 'u) event \<Rightarrow> bool" where
  "sparesZeroKey (CallDelete target) = (convert target \<noteq> convert zeroResource)"
| "sparesZeroKey e = True"

definition nonzero :: "('c, 'u) WorkerPool \<Rightarrow> bool" where
  "nonzero wp = (\<forall>t < length (workers wp).
      workers wp ! t \<noteq> Popped zeroResource \<and> workers wp ! t \<noteq> Working zeroResource)"

definition stuck :: "('c, 'u) WorkerPool \<Rightarrow> bool" where
  "stuck wp =
     (map_option cacheResource (cache (queue wp) (convert zeroResource)) = Some zeroResource
      \<and> (\<forall>t < length (workers wp). \<forall>r.
            workers wp ! t = Popped r \<longrightarrow> convert r \<noteq> convert zeroResource))"

section \<open>Example values\<close>

definition exR1 :: Resource where
  "exR1 = \<lparr>GroupVersionResource =
              \<lparr>Group = ''networking.istio.io'', Version = ''v1'', Resource = ''gateways''\<rparr>,
            Namespace = ''default'', Name = ''a'', Generation = ''1''\<rparr>"

definition exR1g2 :: Resource where
  "exR1g2 = exR1\<lparr>Generation := ''2''\<rparr>"

definition exR2 :: Resource where
  "exR2 = \<lparr>GroupVersionResource =
              \<lparr>Group = ''networking.istio.io'', Version = ''v1'', Resource = ''gateways''\<rparr>,
            Namespace = ''default'', Name = ''b'', Generation = ''1''\<rparr>"

definition exR3 :: Resource where
  "exR3 = \<lparr>GroupVersionResource =
              \<lparr>Group = ''networking.istio.io'', Version = ''v1'', Resource = ''gateways''\<rparr>,
            Namespace = ''default'', Name = ''c'', Generation = ''1''\<rparr>"

text \<open>One push.\<close>

definition exQ1 :: "(nat, nat) WorkQueue" where
  "exQ1 = Push emptyQueue exR1 0 10"

text \<open>Two pushes, then the first resource deleted.\<close>

definition exQ2 :: "(nat, nat) WorkQueue" where
  "exQ2 = Delete (Push (Push emptyQueue exR1 0 10) exR2 0 20) exR1"

text \<open>Three pushes, then the second resource deleted.\<close>

definition exQ3 :: "(nat, nat) WorkQueue" where
  "exQ3 = Delete (Pushes emptyQueue [(exR3, 0, 30), (exR1, 0, 10), (exR2, 0, 20)]) exR1"

text \<open>Three pushes for one key: two controllers, two generations.\<close>

definition exPushes :: "(Resource \<times> nat \<times> nat) list" where
  "exPushes = [(exR1, 0, 10), (exR1g2, 1, 20), (exR1, 0, 11)]"

definition exOps :: "(nat, nat) queueOp list" where
  "exOps = [OpPush exR1 0 10, OpPush exR2 0 20, OpPop {}, OpDelete exR1, OpPush exR1 0 11]"

text \<open>Stored configs of generation 1 and 2, and three providers of the istio status.\<close>

definition exCfg :: "IstioStatus Config" where
  "exCfg = \<lparr>cfgGeneration = 1, cfgStatus = \<lparr>ObservedGeneration = 0\<rparr>\<rparr>"

definition exCfg2 :: "IstioStatus Config" where
  "exCfg2 = \<lparr>cfgGeneration = 2, cfgStatus = \<lparr>ObservedGeneration = 0\<rparr>\<rparr>"

definition exGetOG :: "IstioStatus \<Rightarrow> IstioGenerationProvider option \<times> string option" where
  "exGetOG st = (Some (IstioGenerationProvider st), None)"

definition exGetOGFails :: "IstioStatus \<Rightarrow> IstioGenerationProvider option \<times> string option" where
  "exGetOGFails st = (None, Some ''no observed generation'')"

definition exGetOGStale :: "IstioStatus \<Rightarrow> IstioGenerationProvider option \<times> string option" where
  "exGetOGStale st = (Some (IstioGenerationProvider st), Some ''no observed generation'')"

text \<open>A merge function that leaves the status as it is.\<close>

definition exFn ::
  "nat \<Rightarrow> IstioGenerationProvider option \<Rightarrow> nat \<Rightarrow> IstioGenerationProvider option" where
  "exFn ctl x i = x"

text \<open>
  A schedule of a pool of two workers: both resources pushed, both workers started, the first
  worker through its critical section and its work, a third push for the first key in between,
  the second worker through its critical section.
\<close>

definition exRun :: "(nat, nat) event list" where
  "exRun = [CallPush exR1 0 10, CallMaybeAddWorker, CallPush exR2 0 20, CallMaybeAddWorker,
            Step 0, Step 0, CallPush exR1 1 11, Step 0, Step 1, Step 1, Step 1, Step 0]"

definition exState :: "(nat, nat) WorkerPool" where
  "exState =
     \<lparr>queue = \<lparr>tasks = [], cache = Map.empty\<rparr>, closing = False, workerCount = 2,
      maxWorkers = 2, currentlyWorking = {convert exR1, convert exR2}, lock = None,
      workers = [Finished exR1, Working exR2]\<rparr>"

text \<open>
  A schedule in which the zero-value resource is pushed and a worker is about to pop it, the
  state it leads to, the state after the pop, a later schedule and its last state.
\<close>

definition exZeroRun :: "(nat, nat) event list" where
  "exZeroRun = [CallPush zeroResource 0 10, CallMaybeAddWorker, Step 0]"

definition exZeroQueue :: "lockResource list \<Rightarrow> (nat \<rightharpoonup> nat) \<Rightarrow> (nat, nat) WorkQueue" where
  "exZeroQueue ts m =
     \<lparr>tasks = ts,
      cache = [convert zeroResource \<mapsto> \<lparr>cacheResource = zeroResource, perControllerStatus = m\<rparr>]\<rparr>"

definition exZeroState :: "(nat, nat) WorkerPool" where
  "exZeroState =
     \<lparr>queue = exZeroQueue [convert zeroResource] [0 \<mapsto> 10], closing = False, workerCount = 1,
      maxWorkers = 2, currentlyWorking = {}, lock = Some 0, workers = [Checked]\<rparr>"

definition exZeroPopped :: "(nat, nat) WorkerPool" where
  "exZeroPopped =
     exZeroState\<lparr>queue := exZeroQueue [] [0 \<mapsto> 10], lock := None,
                 workers := (workers exZeroState)[0 := Idle]\<rparr>"

definition exZeroLater :: "(nat, nat) event list" where
  "exZeroLater = [Step 0, CallPush zeroResource 1 11, CallMaybeAddWorker, CallDelete exR1]"

definition exZeroEnd :: "(nat, nat) WorkerPool" where
  "exZeroEnd =
     \<lparr>queue = exZeroQueue [] [0 \<mapsto> 10, 1 \<mapsto> 11], closing = False, workerCount = 0,
      maxWorkers = 2, currentlyWorking = {}, lock = None, workers = [Exited]\<rparr>"

section \<open>Facts about the queue\<close>

lemma PopFrom_cache: "cache (snd (snd (PopFrom i ex wq))) = cache wq"
proof (induction i ex wq rule: PopFrom.induct)
  case (1 i ex wq)
  show ?case
    using "1" by (subst PopFrom.simps) (simp add: Let_def split: option.splits)
qed

lemma PopFrom_hit:
  assumes "i \<le> j" "j < length (tasks wq)" "\<forall>n. i \<le> n \<and> n < j \<longrightarrow> tasks wq ! n \<in> ex"
    "tasks wq ! j \<notin> ex"
  shows "PopFrom i ex wq =
     (case cache wq (tasks wq ! j) of
        None \<Rightarrow> (zeroResource, None, wq\<lparr>tasks := take j (tasks wq) @ drop (Suc j) (tasks wq)\<rparr>)
      | Some e \<Rightarrow> (cacheResource e, Some (perControllerStatus e),
                  wq\<lparr>tasks := take j (tasks wq) @ drop (Suc j) (tasks wq)\<rparr>))"
  using assms
proof (induction i ex wq rule: PopFrom.induct)
  case (1 i ex wq)
  show ?case
  proof (cases "i = j")
    case True
    with "1.prems" show ?thesis
      by (subst PopFrom.simps) (simp add: Let_def)
  next
    case False
    with "1.prems" have lt: "i < j" and inx: "tasks wq ! i \<in> ex" by auto
    from lt "1.prems" have "PopFrom i ex wq = PopFrom (i + 1) ex wq"
      using inx by (subst PopFrom.simps) simp
    moreover have "PopFrom (i + 1) ex wq = (case cache wq (tasks wq ! j) of
        None \<Rightarrow> (zeroResource, None, wq\<lparr>tasks := take j (tasks wq) @ drop (Suc j) (tasks wq)\<rparr>)
      | Some e \<Rightarrow> (cacheResource e, Some (perControllerStatus e),
                  wq\<lparr>tasks := take j (tasks wq) @ drop (Suc j) (tasks wq)\<rparr>))"
      using lt "1.prems" inx by (intro "1.IH") auto
    ultimately show ?thesis by simp
  qed
qed

lemma PopFrom_miss:
  assumes "\<forall>n. i \<le> n \<and> n < length (tasks wq) \<longrightarrow> tasks wq ! n \<in> ex"
  shows "PopFrom i ex wq = (zeroResource, None, wq)"
  using assms
proof (induction i ex wq rule: PopFrom.induct)
  case (1 i ex wq)
  show ?case
  proof (cases "i < length (tasks wq)")
    case True
    with "1.prems" have inx: "tasks wq ! i \<in> ex" by auto
    have "PopFrom (i + 1) ex wq = (zeroResource, None, wq)"
      using True inx "1.prems" by (intro "1.IH") auto
    with True inx show ?thesis by (subst PopFrom.simps) simp
  next
    case False
    then show ?thesis by (subst PopFrom.simps) simp
  qed
qed

text \<open>Either every key of a list is excluded, or there is a first one that is not.\<close>

lemma first_outside:
  "(\<forall>n < length xs. xs ! n \<in> ex) \<or>
   (\<exists>j < length xs. xs ! j \<notin> ex \<and> (\<forall>n < j. xs ! n \<in> ex))"
proof (cases "\<forall>n < length xs. xs ! n \<in> ex")
  case True then show ?thesis by simp
next
  case False
  then obtain m where m: "m < length xs \<and> xs ! m \<notin> ex" by auto
  define j where "j = (LEAST m. m < length xs \<and> xs ! m \<notin> ex)"
  have "j < length xs \<and> xs ! j \<notin> ex" unfolding j_def using m by (rule LeastI)
  moreover have "\<forall>n < j. xs ! n \<in> ex"
  proof (intro allI impI)
    fix n assume "n < j"
    then have "\<not> (n < length xs \<and> xs ! n \<notin> ex)" unfolding j_def by (rule not_less_Least)
    moreover have "n < length xs" using \<open>n < j\<close> \<open>j < length xs \<and> xs ! j \<notin> ex\<close> by simp
    ultimately show "xs ! n \<in> ex" by simp
  qed
  ultimately show ?thesis by blast
qed

lemma Pop_cache: "cache (snd (snd (Pop wq ex))) = cache wq"
  by (simp add: Pop_def PopFrom_cache)

lemma Pop_cases:
  "(Pop wq ex = (zeroResource, None, wq) \<and> (\<forall>n < length (tasks wq). tasks wq ! n \<in> ex)) \<or>
   (\<exists>j < length (tasks wq). tasks wq ! j \<notin> ex \<and> (\<forall>n < j. tasks wq ! n \<in> ex) \<and>
      Pop wq ex = (case cache wq (tasks wq ! j) of
        None \<Rightarrow> (zeroResource, None, wq\<lparr>tasks := take j (tasks wq) @ drop (Suc j) (tasks wq)\<rparr>)
      | Some e \<Rightarrow> (cacheResource e, Some (perControllerStatus e),
                  wq\<lparr>tasks := take j (tasks wq) @ drop (Suc j) (tasks wq)\<rparr>)))"
proof -
  from first_outside [of "tasks wq" ex] show ?thesis
  proof
    assume a: "\<forall>n < length (tasks wq). tasks wq ! n \<in> ex"
    then have "Pop wq ex = (zeroResource, None, wq)"
      unfolding Pop_def by (intro PopFrom_miss) simp
    with a show ?thesis by simp
  next
    assume "\<exists>j < length (tasks wq). tasks wq ! j \<notin> ex \<and> (\<forall>n < j. tasks wq ! n \<in> ex)"
    then obtain j where j: "j < length (tasks wq)" "tasks wq ! j \<notin> ex" "\<forall>n < j. tasks wq ! n \<in> ex"
      by blast
    then have "Pop wq ex = (case cache wq (tasks wq ! j) of
        None \<Rightarrow> (zeroResource, None, wq\<lparr>tasks := take j (tasks wq) @ drop (Suc j) (tasks wq)\<rparr>)
      | Some e \<Rightarrow> (cacheResource e, Some (perControllerStatus e),
                  wq\<lparr>tasks := take j (tasks wq) @ drop (Suc j) (tasks wq)\<rparr>))"
      unfolding Pop_def by (intro PopFrom_hit) auto
    with j show ?thesis by blast
  qed
qed

lemma Pop_Some:
  assumes "Pop wq ex = (target, Some work, wq')"
  shows "\<exists>j < length (tasks wq). tasks wq ! j \<notin> ex \<and> (\<forall>n < j. tasks wq ! n \<in> ex) \<and>
      cache wq (tasks wq ! j) = Some \<lparr>cacheResource = target, perControllerStatus = work\<rparr> \<and>
      wq' = wq\<lparr>tasks := take j (tasks wq) @ drop (Suc j) (tasks wq)\<rparr>"
  using Pop_cases [of wq ex] assms
  by (auto split: option.splits)

lemma Pop_tasks:
  "tasks (snd (snd (Pop wq ex))) = tasks wq \<or>
   (\<exists>j < length (tasks wq). tasks (snd (snd (Pop wq ex))) = take j (tasks wq) @ drop (Suc j) (tasks wq))"
  using Pop_cases [of wq ex] by (auto split: option.splits)

lemma Pop_nonzero_Some:
  assumes "Pop wq ex = (target, work, wq')" and "target \<noteq> zeroResource"
  shows "\<exists>m. work = Some m"
  using Pop_cases [of wq ex] assms by (auto split: option.splits)

lemma keyed_Push: "keyed wq \<Longrightarrow> keyed (Push wq r c u)"
  by (auto simp: keyed_def Push_def Let_def split: option.splits if_splits)

lemma keyed_Delete: "keyed wq \<Longrightarrow> keyed (Delete wq r)"
  by (auto simp: keyed_def Delete_def split: if_splits)

lemma keyed_empty: "keyed emptyQueue"
  by (simp add: keyed_def emptyQueue_def)

lemma keyed_Pop: "keyed wq \<Longrightarrow> keyed (snd (snd (Pop wq ex)))"
  by (simp add: keyed_def Pop_cache)

lemma Pop_keyed: "keyed wq \<Longrightarrow> Pop wq ex = (target, work, wq') \<Longrightarrow> keyed wq'"
  using keyed_Pop [of wq ex] by simp

lemma Pop_outside:
  assumes "keyed wq" and "Pop wq ex = (target, Some work, wq')"
  shows "convert target \<notin> ex"
proof -
  from Pop_Some [OF assms(2)] obtain j where j: "tasks wq ! j \<notin> ex"
    "cache wq (tasks wq ! j) = Some \<lparr>cacheResource = target, perControllerStatus = work\<rparr>" by blast
  from assms(1) have "\<And>k e. cache wq k = Some e \<Longrightarrow> convert (cacheResource e) = k"
    by (simp add: keyed_def)
  from this [OF j(2)] j(1) show ?thesis by simp
qed

lemma Push_keeps_resource:
  "map_option cacheResource (cache wq k) = Some r \<Longrightarrow>
   map_option cacheResource (cache (Push wq target c u) k) = Some r"
  by (auto simp: Push_def Let_def split: option.splits)

lemma distinct_cut: "distinct xs \<Longrightarrow> distinct (take j xs @ drop (Suc j) xs)"
proof (induction xs arbitrary: j)
  case Nil
  then show ?case by simp
next
  case (Cons x xs)
  show ?case
  proof (cases j)
    case 0
    with Cons.prems show ?thesis by simp
  next
    case (Suc m)
    have "x \<notin> set (take m xs)" "x \<notin> set (drop (Suc m) xs)"
      using Cons.prems by (auto dest: in_set_takeD in_set_dropD)
    moreover have "distinct (take m xs @ drop (Suc m) xs)"
      using Cons.prems by (intro Cons.IH) simp
    ultimately show ?thesis using Suc by simp
  qed
qed

lemma set_cut: "set (take j xs @ drop (Suc j) xs) \<subseteq> set xs"
  by (auto dest: in_set_takeD in_set_dropD)

lemma pendingOnce_Push: "pendingOnce wq \<Longrightarrow> pendingOnce (Push wq r c u)"
  by (auto simp: pendingOnce_def Push_def Let_def split: option.splits)

lemma pendingOnce_Pop:
  assumes "pendingOnce wq"
  shows "pendingOnce (snd (snd (Pop wq ex)))"
proof -
  from assms have d: "distinct (tasks wq)" and s: "set (tasks wq) \<subseteq> dom (cache wq)"
    by (simp_all add: pendingOnce_def)
  from Pop_tasks [of wq ex] show ?thesis
  proof
    assume "tasks (snd (snd (Pop wq ex))) = tasks wq"
    with d s show ?thesis by (simp add: pendingOnce_def Pop_cache)
  next
    assume "\<exists>j < length (tasks wq).
      tasks (snd (snd (Pop wq ex))) = take j (tasks wq) @ drop (Suc j) (tasks wq)"
    then obtain j where j: "tasks (snd (snd (Pop wq ex))) = take j (tasks wq) @ drop (Suc j) (tasks wq)"
      by blast
    have "distinct (tasks (snd (snd (Pop wq ex))))"
      unfolding j using d by (rule distinct_cut)
    moreover have "set (tasks (snd (snd (Pop wq ex)))) \<subseteq> dom (cache wq)"
      unfolding j using set_cut [of j "tasks wq"] s by (rule subset_trans)
    ultimately show ?thesis by (simp add: pendingOnce_def Pop_cache)
  qed
qed

lemma pendingOnce_Delete:
  "pendingOnce wq \<Longrightarrow> convert r \<notin> set (tasks wq) \<Longrightarrow> pendingOnce (Delete wq r)"
  by (auto simp: pendingOnce_def Delete_def)

lemma pendingOnce_applyOps:
  "pendingOnce wq \<Longrightarrow> deletesUnqueued wq ops \<Longrightarrow> pendingOnce (applyOps wq ops)"
proof (induction ops arbitrary: wq)
  case Nil
  then show ?case by simp
next
  case (Cons x xs)
  show ?case
  proof (cases x)
    case (OpPush r c u)
    with Cons.prems have "pendingOnce (Push wq r c u)" and "deletesUnqueued (Push wq r c u) xs"
      by (simp_all add: pendingOnce_Push)
    then have "pendingOnce (applyOps (Push wq r c u) xs)" by (rule Cons.IH)
    with OpPush show ?thesis by simp
  next
    case (OpPop ex)
    with Cons.prems have "pendingOnce (snd (snd (Pop wq ex)))"
      and "deletesUnqueued (snd (snd (Pop wq ex))) xs"
      by (simp_all add: pendingOnce_Pop)
    then have "pendingOnce (applyOps (snd (snd (Pop wq ex))) xs)" by (rule Cons.IH)
    with OpPop show ?thesis by simp
  next
    case (OpDelete r)
    with Cons.prems have "pendingOnce (Delete wq r)" and "deletesUnqueued (Delete wq r) xs"
      by (simp_all add: pendingOnce_Delete)
    then have "pendingOnce (applyOps (Delete wq r) xs)" by (rule Cons.IH)
    with OpDelete show ?thesis by simp
  qed
qed

lemma Pushes_same_key:
  "cache wq k = Some \<lparr>cacheResource = r0, perControllerStatus = m\<rparr> \<Longrightarrow>
   \<forall>p \<in> set ps. convert (fst p) = k \<Longrightarrow>
   tasks (Pushes wq ps) = tasks wq \<and>
   cache (Pushes wq ps) k =
     Some \<lparr>cacheResource = r0, perControllerStatus = m ++ map_of (rev (map snd ps))\<rparr>"
proof (induction ps arbitrary: wq m)
  case Nil
  then show ?case by simp
next
  case (Cons p ps)
  obtain r c u where p: "p = (r, c, u)" by (cases p) auto
  with Cons.prems have k: "convert r = k" by simp
  have c1: "cache (Push wq r c u) k = Some \<lparr>cacheResource = r0, perControllerStatus = m(c \<mapsto> u)\<rparr>"
    using Cons.prems(1) k by (simp add: Push_def Let_def)
  have t1: "tasks (Push wq r c u) = tasks wq"
    using Cons.prems(1) k by (simp add: Push_def Let_def)
  from Cons.prems have "\<forall>p \<in> set ps. convert (fst p) = k" by simp
  from Cons.IH [OF c1 this]
  have A: "tasks (Pushes (Push wq r c u) ps) = tasks (Push wq r c u)" and
    B: "cache (Pushes (Push wq r c u) ps) k =
       Some \<lparr>cacheResource = r0, perControllerStatus = m(c \<mapsto> u) ++ map_of (rev (map snd ps))\<rparr>"
    by blast+
  have E: "m(c \<mapsto> u) ++ map_of (rev (map snd ps)) = m ++ map_of (rev (map snd (p # ps)))"
  proof -
    have "m(c \<mapsto> u) = m ++ [c \<mapsto> u]" by simp
    then have "m(c \<mapsto> u) ++ map_of (rev (map snd ps)) = m ++ ([c \<mapsto> u] ++ map_of (rev (map snd ps)))"
      by (simp only: map_add_assoc)
    also have "[c \<mapsto> u] ++ map_of (rev (map snd ps)) = map_of (rev (map snd (p # ps)))"
      by (simp add: p map_of_append)
    finally show ?thesis .
  qed
  have un: "Pushes wq (p # ps) = Pushes (Push wq r c u) ps" by (simp add: p)
  from A t1 have T: "tasks (Pushes wq (p # ps)) = tasks wq" unfolding un by (rule trans)
  from B have C: "cache (Pushes wq (p # ps)) k =
       Some \<lparr>cacheResource = r0, perControllerStatus = m ++ map_of (rev (map snd (p # ps)))\<rparr>"
    unfolding un E .
  from T C show ?case by (rule conjI)
qed

section \<open>Facts about the pool\<close>

lemma filter_update_length:
  "t < length xs \<Longrightarrow>
   length (filter P (xs[t := y])) + (if P (xs ! t) then 1 else 0)
     = length (filter P xs) + (if P y then 1 else 0)"
proof (induction xs arbitrary: t)
  case Nil
  then show ?case by simp
next
  case (Cons x xs)
  show ?case
  proof (cases t)
    case 0
    then show ?thesis by simp
  next
    case (Suc n)
    with Cons.prems have "n < length xs" by simp
    from Cons.IH [OF this] Suc show ?thesis by simp
  qed
qed

lemma unat_inc:
  assumes "(x :: 64 word) < m"
  shows "unat (x + 1) = Suc (unat x)"
proof -
  have "unat x < unat m" using assms by (simp add: word_less_nat_alt)
  moreover have "unat m < 2 ^ 64" using unsigned_less [of m, where ?'a = nat] by simp
  ultimately have "unat x + unat (1 :: 64 word) < 2 ^ LENGTH(64)" by simp
  then have "unat (x + 1) = unat x + unat (1 :: 64 word)" by (simp only: unat_add_lem)
  then show ?thesis by simp
qed

lemma dec_le: "(x :: 64 word) \<noteq> 0 \<Longrightarrow> x \<le> m \<Longrightarrow> x - 1 \<le> m"
  by (meson leD less_eq_dec_iff nle_le)

lemma countInv_maybeAddWorker:
  assumes "countInv wp" and "maybeAddWorker wp = Some wp'"
  shows "countInv wp'"
proof (cases "workerCount wp \<ge> maxWorkers wp \<or> Length (queue wp) = 0")
  case True
  with assms show ?thesis by (simp add: maybeAddWorker_def split: if_splits)
next
  case False
  then have lt: "workerCount wp < maxWorkers wp" by (simp add: not_le)
  from False assms(2) have wp': "wp' = wp\<lparr>workerCount := workerCount wp + 1, workers := workers wp @ [Idle]\<rparr>"
    by (simp add: maybeAddWorker_def split: if_splits)
  from lt have "workerCount wp + 1 \<le> maxWorkers wp" by (rule inc_le)
  moreover from assms(1) have "unat (workerCount wp + 1) = length (filter alive (workers wp @ [Idle]))"
    by (simp add: countInv_def unat_inc [OF lt])
  ultimately show ?thesis by (simp add: countInv_def wp')
qed

lemma countInv_workerStep:
  assumes "countInv wp" and "workerStep t wp = Some wp'"
  shows "countInv wp'"
proof -
  from assms(2) have t: "t < length (workers wp)"
    by (simp add: workerStep_def split: if_splits)
  from assms(1) have le: "workerCount wp \<le> maxWorkers wp"
    and n: "unat (workerCount wp) = length (filter alive (workers wp))"
    by (simp_all add: countInv_def)
  show ?thesis
  proof (cases "workers wp ! t")
    case Idle
    show ?thesis
    proof (cases "closing wp \<or> Length (queue wp) = 0")
      case True
      with Idle t assms(2)
      have wp': "wp' = wp\<lparr>workerCount := workerCount wp - 1, workers := (workers wp)[t := Exited]\<rparr>"
        by (simp add: workerStep_def split: if_splits)
      from filter_update_length [OF t, of alive Exited] Idle
      have f: "length (filter alive ((workers wp)[t := Exited])) + 1 = length (filter alive (workers wp))"
        by simp
      with n have nz: "workerCount wp \<noteq> 0" by (auto simp: unat_eq_zero [symmetric] simp del: unat_eq_zero)
      from nz le have "workerCount wp - 1 \<le> maxWorkers wp" by (rule dec_le)
      moreover from f n have "unat (workerCount wp - 1) = length (filter alive ((workers wp)[t := Exited]))"
        by (simp add: unat_minus_one [OF nz])
      ultimately show ?thesis by (simp add: countInv_def wp')
    next
      case False
      with Idle t assms(2) have wp': "wp' = wp\<lparr>lock := Some t, workers := (workers wp)[t := Checked]\<rparr>"
        by (simp add: workerStep_def split: if_splits)
      from filter_update_length [OF t, of alive Checked] Idle
      have "length (filter alive ((workers wp)[t := Checked])) = length (filter alive (workers wp))"
        by simp
      with le n show ?thesis by (simp add: countInv_def wp')
    qed
  next
    case Checked
    obtain target work q' where p: "Pop (queue wp) (currentlyWorking wp) = (target, work, q')"
      by (cases "Pop (queue wp) (currentlyWorking wp)") auto
    from filter_update_length [OF t, of alive Idle] Checked
    have a: "length (filter alive ((workers wp)[t := Idle])) = length (filter alive (workers wp))"
      by simp
    from filter_update_length [OF t, of alive "Popped target"] Checked
    have b: "length (filter alive ((workers wp)[t := Popped target])) = length (filter alive (workers wp))"
      by simp
    from Checked t assms(2) p a b le n show ?thesis
      by (auto simp: workerStep_def countInv_def split: if_splits)
  next
    case (Popped target)
    from filter_update_length [OF t, of alive "Working target"] Popped
    have "length (filter alive ((workers wp)[t := Working target])) = length (filter alive (workers wp))"
      by simp
    with Popped t assms(2) le n show ?thesis
      by (auto simp: workerStep_def countInv_def)
  next
    case (Working target)
    from filter_update_length [OF t, of alive "Finished target"] Working
    have "length (filter alive ((workers wp)[t := Finished target])) = length (filter alive (workers wp))"
      by simp
    with Working t assms(2) le n show ?thesis
      by (auto simp: workerStep_def countInv_def)
  next
    case (Finished target)
    from filter_update_length [OF t, of alive Idle] Finished
    have "length (filter alive ((workers wp)[t := Idle])) = length (filter alive (workers wp))"
      by simp
    with Finished t assms(2) le n show ?thesis
      by (auto simp: workerStep_def countInv_def split: if_splits)
  next
    case Exited
    with t assms(2) show ?thesis by (simp add: workerStep_def)
  qed
qed

lemma countInv_exec: "countInv wp \<Longrightarrow> exec e wp = Some wp' \<Longrightarrow> countInv wp'"
proof (cases e)
  case (CallPush r c u)
  assume "countInv wp" "exec e wp = Some wp'"
  with CallPush show ?thesis by (auto simp: countInv_def)
next
  case CallMaybeAddWorker
  assume "countInv wp" "exec e wp = Some wp'"
  with CallMaybeAddWorker show ?thesis by (simp add: countInv_maybeAddWorker)
next
  case (CallDelete r)
  assume "countInv wp" "exec e wp = Some wp'"
  with CallDelete show ?thesis by (auto simp: countInv_def)
next
  case Cancel
  assume "countInv wp" "exec e wp = Some wp'"
  with Cancel show ?thesis by (auto simp: countInv_def split: if_splits)
next
  case (Step t)
  assume "countInv wp" "exec e wp = Some wp'"
  with Step show ?thesis by (simp add: countInv_workerStep)
qed

lemma maxWorkers_exec: "exec e wp = Some wp' \<Longrightarrow> maxWorkers wp' = maxWorkers wp"
  by (cases e)
     (auto simp: maybeAddWorker_def workerStep_def split: if_splits worker.splits prod.splits)

lemma run_induct:
  assumes "run es wp = Some wp'" and "P wp"
    and "\<And>e a b. P a \<Longrightarrow> exec e a = Some b \<Longrightarrow> P b"
  shows "P wp'"
  using assms(1,2)
proof (induction es arbitrary: wp)
  case Nil
  then show ?case by simp
next
  case (Cons e es)
  from Cons.prems(1) obtain a where a: "exec e wp = Some a" and r: "run es a = Some wp'"
    by (auto split: option.splits)
  from assms(3) [OF Cons.prems(2) a] have "P a" .
  from Cons.IH [OF r this] show ?case .
qed

lemma locks_release:
  assumes "locks ws l" and "t < length ws" and "l = None \<or> l = Some t" and "\<not> holdsLock w"
  shows "locks (ws[t := w]) None"
  unfolding locks_def
proof (intro allI impI)
  fix n assume n: "n < length (ws[t := w])" "holdsLock (ws[t := w] ! n)"
  with assms(2,4) have "n \<noteq> t" by auto
  with n have "n < length ws" "holdsLock (ws ! n)" by simp_all
  with assms(1) have "l = Some n" by (simp add: locks_def)
  with assms(3) \<open>n \<noteq> t\<close> show "None = Some n" by auto
qed

lemma locks_take:
  assumes "locks ws l" and "t < length ws" and "l = None \<or> l = Some t"
  shows "locks (ws[t := w]) (Some t)"
  unfolding locks_def
proof (intro allI impI)
  fix n assume n: "n < length (ws[t := w])" "holdsLock (ws[t := w] ! n)"
  show "Some t = Some n"
  proof (cases "n = t")
    case True then show ?thesis by simp
  next
    case False
    with n have "n < length ws" "holdsLock (ws ! n)" by simp_all
    with assms(1) have "l = Some n" by (simp add: locks_def)
    with assms(3) False show ?thesis by auto
  qed
qed

lemma locks_keep:
  assumes "locks ws l" and "t < length ws" and "\<not> holdsLock w"
  shows "locks (ws[t := w]) l"
  unfolding locks_def
proof (intro allI impI)
  fix n assume n: "n < length (ws[t := w])" "holdsLock (ws[t := w] ! n)"
  with assms(2,3) have "n \<noteq> t" by auto
  with n have "n < length ws" "holdsLock (ws ! n)" by simp_all
  with assms(1) show "l = Some n" by (simp add: locks_def)
qed

lemma locks_append: "locks ws l \<Longrightarrow> locks (ws @ [Idle]) l"
  by (auto simp: locks_def nth_append less_Suc_eq)

lemma locks_others:
  "locks ws (Some t) \<Longrightarrow> n < length ws \<Longrightarrow> n \<noteq> t \<Longrightarrow> \<not> holdsLock (ws ! n)"
  by (auto simp: locks_def)

lemma marks_same:
  assumes "marks ws cw" and "t < length ws" and "holding w = holding (ws ! t)"
    and "\<forall>r. w = Popped r \<longrightarrow> convert r \<notin> cw"
  shows "marks (ws[t := w]) cw"
proof -
  have same: "\<And>n. n < length ws \<Longrightarrow> holding (ws[t := w] ! n) = holding (ws ! n)"
    using assms(2,3) by (simp add: nth_list_update)
  show ?thesis
    unfolding marks_def
  proof (intro conjI allI impI)
    fix ta r
    assume a: "ta < length (ws[t := w])" "ws[t := w] ! ta = Popped r"
    show "convert r \<notin> cw"
    proof (cases "ta = t")
      case True
      with a assms(2,4) show ?thesis by simp
    next
      case False
      with a have "ta < length ws" "ws ! ta = Popped r" by simp_all
      with assms(1) show ?thesis unfolding marks_def by blast
    qed
  next
    fix k
    from assms(1) have "k \<in> cw \<longleftrightarrow> (\<exists>ta < length ws. holding (ws ! ta) = Some k)"
      by (simp add: marks_def)
    also have "\<dots> \<longleftrightarrow> (\<exists>ta < length ws. holding (ws[t := w] ! ta) = Some k)"
      using same by auto
    finally show "k \<in> cw \<longleftrightarrow> (\<exists>ta < length (ws[t := w]). holding (ws[t := w] ! ta) = Some k)"
      by simp
  next
    fix i j
    assume ij: "i < length (ws[t := w])" "j < length (ws[t := w])" "i \<noteq> j"
    then have lt: "i < length ws" "j < length ws" by simp_all
    from assms(1) lt ij(3)
    have "holding (ws ! i) = None \<or> holding (ws ! i) \<noteq> holding (ws ! j)"
      unfolding marks_def by blast
    then show "holding (ws[t := w] ! i) = None \<or> holding (ws[t := w] ! i) \<noteq> holding (ws[t := w] ! j)"
      by (simp only: same [OF lt(1)] same [OF lt(2)])
  qed
qed

lemma marks_append: "marks ws cw \<Longrightarrow> marks (ws @ [Idle]) cw"
proof -
  assume m: "marks ws cw"
  show ?thesis
    unfolding marks_def
  proof (intro conjI allI impI)
    fix ta r
    assume a: "ta < length (ws @ [Idle])" "(ws @ [Idle]) ! ta = Popped r"
    then have "ta < length ws" "ws ! ta = Popped r"
      by (auto simp: nth_append less_Suc_eq split: if_splits)
    with m show "convert r \<notin> cw" unfolding marks_def by blast
  next
    fix k
    from m have "k \<in> cw \<longleftrightarrow> (\<exists>ta < length ws. holding (ws ! ta) = Some k)"
      by (simp add: marks_def)
    also have "\<dots> \<longleftrightarrow> (\<exists>ta < length (ws @ [Idle]). holding ((ws @ [Idle]) ! ta) = Some k)"
      by (auto simp: nth_append less_Suc_eq)
    finally show "k \<in> cw \<longleftrightarrow> (\<exists>ta < length (ws @ [Idle]). holding ((ws @ [Idle]) ! ta) = Some k)" .
  next
    fix i j
    assume ij: "i < length (ws @ [Idle])" "j < length (ws @ [Idle])" "i \<noteq> j"
    show "holding ((ws @ [Idle]) ! i) = None \<or> holding ((ws @ [Idle]) ! i) \<noteq> holding ((ws @ [Idle]) ! j)"
    proof (cases "i < length ws \<and> j < length ws")
      case True
      with m ij(3) have "holding (ws ! i) = None \<or> holding (ws ! i) \<noteq> holding (ws ! j)"
        unfolding marks_def by blast
      with True show ?thesis by (simp add: nth_append)
    next
      case False
      with ij show ?thesis by (auto simp: nth_append less_Suc_eq)
    qed
  qed
qed

lemma marks_mark:
  assumes "marks ws cw" and "t < length ws" and "ws ! t = Popped target"
    and "\<forall>n < length ws. n \<noteq> t \<longrightarrow> \<not> holdsLock (ws ! n)"
  shows "marks (ws[t := Working target]) (insert (convert target) cw)"
proof -
  let ?ws = "ws[t := Working target]"
  from assms(1-3) have out: "convert target \<notin> cw" unfolding marks_def by blast
  have notin: "\<And>n. n < length ws \<Longrightarrow> holding (ws ! n) \<noteq> Some (convert target)"
    using assms(1) out unfolding marks_def by blast
  have old: "\<And>n. n < length ws \<Longrightarrow> n \<noteq> t \<Longrightarrow> ?ws ! n = ws ! n" by simp
  have new: "holding (?ws ! t) = Some (convert target)" using assms(2) by simp
  show ?thesis
    unfolding marks_def
  proof (intro conjI allI impI)
    fix ta r
    assume a: "ta < length ?ws" "?ws ! ta = Popped r"
    with assms(2) have ne: "ta \<noteq> t" by auto
    with a have "ta < length ws" "holdsLock (ws ! ta)" by simp_all
    with assms(4) ne show "convert r \<notin> insert (convert target) cw" by blast
  next
    fix k
    show "k \<in> insert (convert target) cw \<longleftrightarrow> (\<exists>ta < length ?ws. holding (?ws ! ta) = Some k)"
    proof
      assume "k \<in> insert (convert target) cw"
      then consider "k = convert target" | "k \<in> cw" by auto
      then show "\<exists>ta < length ?ws. holding (?ws ! ta) = Some k"
      proof cases
        case 1
        with assms(2) new show ?thesis by (intro exI [of _ t]) simp
      next
        case 2
        with assms(1) obtain ta where ta: "ta < length ws" "holding (ws ! ta) = Some k"
          unfolding marks_def by blast
        with assms(3) have "ta \<noteq> t" by auto
        with ta old [of ta] show ?thesis by (intro exI [of _ ta]) simp
      qed
    next
      assume "\<exists>ta < length ?ws. holding (?ws ! ta) = Some k"
      then obtain ta where ta: "ta < length ws" "holding (?ws ! ta) = Some k" by auto
      show "k \<in> insert (convert target) cw"
      proof (cases "ta = t")
        case True
        with ta new show ?thesis by simp
      next
        case False
        with ta old [of ta] have "holding (ws ! ta) = Some k" by simp
        with assms(1) ta(1) have "k \<in> cw" unfolding marks_def by blast
        then show ?thesis by simp
      qed
    qed
  next
    fix i j
    assume ij: "i < length ?ws" "j < length ?ws" "i \<noteq> j"
    then have lt: "i < length ws" "j < length ws" by simp_all
    show "holding (?ws ! i) = None \<or> holding (?ws ! i) \<noteq> holding (?ws ! j)"
    proof (cases "i = t")
      case True
      with ij(3) have "j \<noteq> t" by simp
      with old [OF lt(2)] notin [OF lt(2)] True new show ?thesis by simp
    next
      case False
      note it = this
      show ?thesis
      proof (cases "j = t")
        case True
        with old [OF lt(1) it] notin [OF lt(1)] new show ?thesis by auto
      next
        case False
        from assms(1) lt ij(3) have "holding (ws ! i) = None \<or> holding (ws ! i) \<noteq> holding (ws ! j)"
          unfolding marks_def by blast
        with old [OF lt(1) it] old [OF lt(2) False] show ?thesis by simp
      qed
    qed
  qed
qed

lemma marks_unmark:
  assumes "marks ws cw" and "t < length ws" and "ws ! t = Finished target"
  shows "marks (ws[t := Idle]) (cw - {convert target})"
proof -
  let ?ws = "ws[t := Idle]"
  have old: "\<And>n. n < length ws \<Longrightarrow> n \<noteq> t \<Longrightarrow> ?ws ! n = ws ! n" by simp
  have new: "holding (?ws ! t) = None" using assms(2) by simp
  have others: "\<And>n. n < length ws \<Longrightarrow> n \<noteq> t \<Longrightarrow> holding (ws ! n) \<noteq> Some (convert target)"
  proof -
    fix n assume n: "n < length ws" "n \<noteq> t"
    with assms(1,2) have "holding (ws ! t) = None \<or> holding (ws ! t) \<noteq> holding (ws ! n)"
      unfolding marks_def by blast
    with assms(3) show "holding (ws ! n) \<noteq> Some (convert target)" by auto
  qed
  show ?thesis
    unfolding marks_def
  proof (intro conjI allI impI)
    fix ta r
    assume a: "ta < length ?ws" "?ws ! ta = Popped r"
    with assms(2) have ne: "ta \<noteq> t" by auto
    with a have "ta < length ws" "ws ! ta = Popped r" by simp_all
    with assms(1) have "convert r \<notin> cw" unfolding marks_def by blast
    then show "convert r \<notin> cw - {convert target}" by simp
  next
    fix k
    show "k \<in> cw - {convert target} \<longleftrightarrow> (\<exists>ta < length ?ws. holding (?ws ! ta) = Some k)"
    proof
      assume "k \<in> cw - {convert target}"
      then have kk: "k \<in> cw" "k \<noteq> convert target" by simp_all
      with assms(1) obtain ta where ta: "ta < length ws" "holding (ws ! ta) = Some k"
        unfolding marks_def by blast
      with kk assms(3) have "ta \<noteq> t" by auto
      with ta old [of ta] show "\<exists>ta < length ?ws. holding (?ws ! ta) = Some k"
        by (intro exI [of _ ta]) simp
    next
      assume "\<exists>ta < length ?ws. holding (?ws ! ta) = Some k"
      then obtain ta where ta: "ta < length ws" "holding (?ws ! ta) = Some k" by auto
      with new have ne: "ta \<noteq> t" by auto
      with ta old [of ta] have h: "holding (ws ! ta) = Some k" by simp
      with assms(1) ta(1) have "k \<in> cw" unfolding marks_def by blast
      moreover from others [OF ta(1) ne] h have "k \<noteq> convert target" by auto
      ultimately show "k \<in> cw - {convert target}" by simp
    qed
  next
    fix i j
    assume ij: "i < length ?ws" "j < length ?ws" "i \<noteq> j"
    then have lt: "i < length ws" "j < length ws" by simp_all
    show "holding (?ws ! i) = None \<or> holding (?ws ! i) \<noteq> holding (?ws ! j)"
    proof (cases "i = t")
      case True
      with new show ?thesis by simp
    next
      case False
      note it = this
      show ?thesis
      proof (cases "j = t")
        case True
        with new show ?thesis by (cases "holding (?ws ! i)") simp_all
      next
        case False
        from assms(1) lt ij(3) have "holding (ws ! i) = None \<or> holding (ws ! i) \<noteq> holding (ws ! j)"
          unfolding marks_def by blast
        with old [OF lt(1) it] old [OF lt(2) False] show ?thesis by simp
      qed
    qed
  qed
qed

lemma poolInv_workerStep:
  assumes "poolInv wp" and "workerStep t wp = Some wp'"
  shows "poolInv wp'"
proof -
  from assms(2) have t: "t < length (workers wp)"
    by (simp add: workerStep_def split: if_splits)
  from assms(1) have k: "keyed (queue wp)" and l: "locks (workers wp) (lock wp)"
    and m: "marks (workers wp) (currentlyWorking wp)"
    by (simp_all add: poolInv_def)
  show ?thesis
  proof (cases "workers wp ! t")
    case Idle
    with t assms(2) have free: "lock wp = None" by (simp add: workerStep_def split: if_splits)
    from Idle t assms(2) free consider
        (exit) "wp' = wp\<lparr>workerCount := workerCount wp - 1, workers := (workers wp)[t := Exited]\<rparr>"
      | (go) "wp' = wp\<lparr>lock := Some t, workers := (workers wp)[t := Checked]\<rparr>"
      by (auto simp: workerStep_def split: if_splits)
    then show ?thesis
    proof cases
      case exit
      have "locks (workers wp') (lock wp')"
        using locks_keep [OF l t, of Exited] by (simp add: exit)
      moreover have "marks (workers wp') (currentlyWorking wp')"
        using marks_same [OF m t, of Exited] Idle by (simp add: exit)
      ultimately show ?thesis using k by (simp add: poolInv_def exit)
    next
      case go
      have "locks (workers wp') (lock wp')"
        using locks_take [OF l t, of Checked] free by (simp add: go)
      moreover have "marks (workers wp') (currentlyWorking wp')"
        using marks_same [OF m t, of Checked] Idle by (simp add: go)
      ultimately show ?thesis using k by (simp add: poolInv_def go)
    qed
  next
    case Checked
    obtain target work q' where p: "Pop (queue wp) (currentlyWorking wp) = (target, work, q')"
      by (cases "Pop (queue wp) (currentlyWorking wp)") auto
    from l t Checked have mine: "lock wp = Some t" by (simp add: locks_def)
    from k p have k': "keyed q'" by (rule Pop_keyed)
    show ?thesis
    proof (cases "target = zeroResource")
      case True
      with Checked t assms(2) p
      have wp': "wp' = wp\<lparr>queue := q', lock := None, workers := (workers wp)[t := Idle]\<rparr>"
        by (simp add: workerStep_def)
      have "locks (workers wp') (lock wp')"
        using locks_release [OF l t, of Idle] mine by (simp add: wp')
      moreover have "marks (workers wp') (currentlyWorking wp')"
        using marks_same [OF m t, of Idle] Checked by (simp add: wp')
      ultimately show ?thesis using k' by (simp add: poolInv_def wp')
    next
      case False
      with Checked t assms(2) p
      have wp': "wp' = wp\<lparr>queue := q', workers := (workers wp)[t := Popped target]\<rparr>"
        by (simp add: workerStep_def)
      from Pop_nonzero_Some [OF p False] obtain mp where "work = Some mp" by blast
      with p have "Pop (queue wp) (currentlyWorking wp) = (target, Some mp, q')" by simp
      from Pop_outside [OF k this] have out: "convert target \<notin> currentlyWorking wp" .
      have "locks (workers wp') (lock wp')"
        using locks_take [OF l t, of "Popped target"] mine by (simp add: wp')
      moreover have "marks (workers wp') (currentlyWorking wp')"
        using marks_same [OF m t, of "Popped target"] Checked out by (simp add: wp')
      ultimately show ?thesis using k' by (simp add: poolInv_def wp')
    qed
  next
    case (Popped target)
    with t assms(2)
    have wp': "wp' = wp\<lparr>queue := Delete (queue wp) target,
                   currentlyWorking := insert (convert target) (currentlyWorking wp),
                   lock := None,
                   workers := (workers wp)[t := Working target]\<rparr>"
      by (simp add: workerStep_def)
    from l t Popped have mine: "lock wp = Some t" by (simp add: locks_def)
    with l have others: "\<forall>n < length (workers wp). n \<noteq> t \<longrightarrow> \<not> holdsLock (workers wp ! n)"
      by (auto dest: locks_others)
    have "locks (workers wp') (lock wp')"
      using locks_release [OF l t, of "Working target"] mine by (simp add: wp')
    moreover have "marks (workers wp') (currentlyWorking wp')"
      using marks_mark [OF m t Popped others] by (simp add: wp')
    ultimately show ?thesis using k by (simp add: poolInv_def wp' keyed_Delete)
  next
    case (Working target)
    with t assms(2)
    have wp': "wp' = wp\<lparr>workers := (workers wp)[t := Finished target]\<rparr>"
      by (simp add: workerStep_def)
    have "locks (workers wp') (lock wp')"
      using locks_keep [OF l t, of "Finished target"] by (simp add: wp')
    moreover have "marks (workers wp') (currentlyWorking wp')"
      using marks_same [OF m t, of "Finished target"] Working by (simp add: wp')
    ultimately show ?thesis using k by (simp add: poolInv_def wp')
  next
    case (Finished target)
    with t assms(2) have free: "lock wp = None" by (simp add: workerStep_def split: if_splits)
    with Finished t assms(2)
    have wp': "wp' = wp\<lparr>currentlyWorking := currentlyWorking wp - {convert target},
                        workers := (workers wp)[t := Idle]\<rparr>"
      by (simp add: workerStep_def)
    have "locks (workers wp') (lock wp')"
      using locks_keep [OF l t, of Idle] by (simp add: wp')
    moreover have "marks (workers wp') (currentlyWorking wp')"
      using marks_unmark [OF m t Finished] by (simp add: wp')
    ultimately show ?thesis using k by (simp add: poolInv_def wp')
  next
    case Exited
    with t assms(2) show ?thesis by (simp add: workerStep_def)
  qed
qed

lemma poolInv_maybeAddWorker:
  assumes "poolInv wp" and "maybeAddWorker wp = Some wp'"
  shows "poolInv wp'"
proof -
  from assms(2) consider "wp' = wp"
    | "wp' = wp\<lparr>workerCount := workerCount wp + 1, workers := workers wp @ [Idle]\<rparr>"
    by (auto simp: maybeAddWorker_def split: if_splits)
  then show ?thesis
  proof cases
    case 1
    with assms(1) show ?thesis by simp
  next
    case 2
    with assms(1) show ?thesis by (simp add: poolInv_def locks_append marks_append)
  qed
qed

lemma poolInv_exec:
  assumes "poolInv wp" and "exec e wp = Some wp'"
  shows "poolInv wp'"
proof (cases e)
  case (CallPush r c u)
  with assms show ?thesis by (auto simp: poolInv_def keyed_Push)
next
  case CallMaybeAddWorker
  with assms show ?thesis by (simp add: poolInv_maybeAddWorker)
next
  case (CallDelete r)
  with assms show ?thesis by (auto simp: poolInv_def keyed_Delete)
next
  case Cancel
  with assms show ?thesis by (auto simp: poolInv_def split: if_splits)
next
  case (Step t)
  with assms show ?thesis by (simp add: poolInv_workerStep)
qed

lemma poolInv_New: "poolInv (NewWorkerPool m)"
  by (simp add: poolInv_def NewWorkerPool_def keyed_empty locks_def marks_def)

lemma nonzero_exec:
  assumes "nonzero wp" and "exec e wp = Some wp'"
  shows "nonzero wp'"
proof (cases e)
  case (CallPush r c u)
  with assms show ?thesis by (auto simp: nonzero_def)
next
  case CallMaybeAddWorker
  with assms show ?thesis
    by (auto simp: nonzero_def maybeAddWorker_def nth_append split: if_splits)
next
  case (CallDelete r)
  with assms show ?thesis by (auto simp: nonzero_def)
next
  case Cancel
  with assms show ?thesis by (auto simp: nonzero_def split: if_splits)
next
  case (Step t)
  with assms have s: "workerStep t wp = Some wp'" by simp
  then have t: "t < length (workers wp)" by (simp add: workerStep_def split: if_splits)
  show ?thesis
  proof (cases "workers wp ! t")
    case Idle
    with s t assms(1) show ?thesis
      by (auto simp: workerStep_def nonzero_def nth_list_update split: if_splits)
  next
    case Checked
    obtain target work q' where p: "Pop (queue wp) (currentlyWorking wp) = (target, work, q')"
      by (cases "Pop (queue wp) (currentlyWorking wp)") auto
    with Checked s t assms(1) show ?thesis
      by (auto simp: workerStep_def nonzero_def nth_list_update split: if_splits)
  next
    case (Popped target)
    with t assms(1) have "target \<noteq> zeroResource" by (auto simp: nonzero_def)
    with Popped s t assms(1) show ?thesis
      by (auto simp: workerStep_def nonzero_def nth_list_update split: if_splits)
  next
    case (Working target)
    with s t assms(1) show ?thesis
      by (auto simp: workerStep_def nonzero_def nth_list_update split: if_splits)
  next
    case (Finished target)
    with s t assms(1) show ?thesis
      by (auto simp: workerStep_def nonzero_def nth_list_update split: if_splits)
  next
    case Exited
    with s t show ?thesis by (simp add: workerStep_def)
  qed
qed

lemma nonzero_run:
  assumes "nonzero wp" and "run es wp = Some wp'"
  shows "nonzero wp'"
  using assms(2,1) nonzero_exec by (rule run_induct)

lemma stuck_exec:
  assumes "keyed (queue wp)" and "stuck wp" and "exec e wp = Some wp'" and "sparesZeroKey e"
  shows "stuck wp'"
proof -
  from assms(2) have z: "map_option cacheResource (cache (queue wp) (convert zeroResource)) = Some zeroResource"
    and np: "\<And>t r. t < length (workers wp) \<Longrightarrow> workers wp ! t = Popped r
              \<Longrightarrow> convert r \<noteq> convert zeroResource"
    by (auto simp: stuck_def)
  show ?thesis
  proof (cases e)
    case (CallPush r c u)
    with assms(3) have wp': "wp' = wp\<lparr>queue := Push (queue wp) r c u\<rparr>" by simp
    from Push_keeps_resource [OF z] np show ?thesis by (auto simp: stuck_def wp')
  next
    case CallMaybeAddWorker
    with assms(3) consider "wp' = wp"
      | "wp' = wp\<lparr>workerCount := workerCount wp + 1, workers := workers wp @ [Idle]\<rparr>"
      by (auto simp: maybeAddWorker_def split: if_splits)
    then show ?thesis
    proof cases
      case 1
      with assms(2) show ?thesis by simp
    next
      case 2
      with z np show ?thesis
        by (auto simp: stuck_def nth_append less_Suc_eq split: if_splits)
    qed
  next
    case (CallDelete r)
    with assms(3,4) z np show ?thesis by (auto simp: stuck_def Delete_def)
  next
    case Cancel
    with assms(3) z np show ?thesis by (auto simp: stuck_def split: if_splits)
  next
    case (Step t)
    with assms(3) have s: "workerStep t wp = Some wp'" by simp
    then have t: "t < length (workers wp)" by (simp add: workerStep_def split: if_splits)
    show ?thesis
    proof (cases "workers wp ! t")
      case Idle
      with s t z np show ?thesis
        by (auto simp: workerStep_def stuck_def nth_list_update split: if_splits)
    next
      case Checked
      obtain target work q' where p: "Pop (queue wp) (currentlyWorking wp) = (target, work, q')"
        by (cases "Pop (queue wp) (currentlyWorking wp)") auto
      from Pop_cache [of "queue wp" "currentlyWorking wp"] p
      have c: "cache q' = cache (queue wp)" by simp
      show ?thesis
      proof (cases "target = zeroResource")
        case True
        with Checked s t p
        have wp': "wp' = wp\<lparr>queue := q', lock := None, workers := (workers wp)[t := Idle]\<rparr>"
          by (simp add: workerStep_def)
        from z np c t show ?thesis by (auto simp: stuck_def wp' nth_list_update split: if_splits)
      next
        case False
        with Checked s t p
        have wp': "wp' = wp\<lparr>queue := q', workers := (workers wp)[t := Popped target]\<rparr>"
          by (simp add: workerStep_def)
        from Pop_nonzero_Some [OF p False] obtain mp where "work = Some mp" by blast
        with p have p': "Pop (queue wp) (currentlyWorking wp) = (target, Some mp, q')" by simp
        from Pop_Some [OF p'] obtain j where
          j: "cache (queue wp) (tasks (queue wp) ! j) = Some \<lparr>cacheResource = target, perControllerStatus = mp\<rparr>"
          by blast
        from assms(1) have "\<And>k e. cache (queue wp) k = Some e \<Longrightarrow> convert (cacheResource e) = k"
          by (simp add: keyed_def)
        from this [OF j] have kk: "tasks (queue wp) ! j = convert target" by simp
        have ne: "convert target \<noteq> convert zeroResource"
        proof
          assume "convert target = convert zeroResource"
          with j kk z False show False by simp
        qed
        from z np c t ne show ?thesis by (auto simp: stuck_def wp' nth_list_update split: if_splits)
      qed
    next
      case (Popped target)
      with t np have ne: "convert target \<noteq> convert zeroResource" by blast
      from Popped s t
      have wp': "wp' = wp\<lparr>queue := Delete (queue wp) target,
                   currentlyWorking := insert (convert target) (currentlyWorking wp),
                   lock := None,
                   workers := (workers wp)[t := Working target]\<rparr>"
        by (simp add: workerStep_def)
      from z np ne t show ?thesis
        by (auto simp: stuck_def wp' Delete_def nth_list_update split: if_splits)
    next
      case (Working target)
      with s t z np show ?thesis
        by (auto simp: workerStep_def stuck_def nth_list_update split: if_splits)
    next
      case (Finished target)
      with s t z np show ?thesis
        by (auto simp: workerStep_def stuck_def nth_list_update split: if_splits)
    next
      case Exited
      with s t show ?thesis by (simp add: workerStep_def)
    qed
  qed
qed

lemma stuck_run:
  "poolInv wp \<Longrightarrow> stuck wp \<Longrightarrow> list_all sparesZeroKey es \<Longrightarrow> run es wp = Some wp'
   \<Longrightarrow> stuck wp'"
proof (induction es arbitrary: wp)
  case Nil
  then show ?case by simp
next
  case (Cons e es)
  from Cons.prems(4) obtain a where a: "exec e wp = Some a" and r: "run es a = Some wp'"
    by (auto split: option.splits)
  from Cons.prems(1) have "keyed (queue wp)" by (simp add: poolInv_def)
  from stuck_exec [OF this Cons.prems(2) a] Cons.prems(3) have "stuck a" by simp
  moreover from Cons.prems(1) a have "poolInv a" by (rule poolInv_exec)
  moreover from Cons.prems(3) have "list_all sparesZeroKey es" by simp
  ultimately show ?case using r by (intro Cons.IH)
qed

section \<open>Facts about the example values\<close>

lemma neq12: "convert exR1 \<noteq> convert exR2"
  by (simp add: convert_def exR1_def exR2_def)

lemma neq13: "convert exR1 \<noteq> convert exR3" by (simp add: convert_def exR1_def exR3_def)

lemma neq23: "convert exR2 \<noteq> convert exR3" by (simp add: convert_def exR2_def exR3_def)

lemma key_g2: "convert exR1g2 = convert exR1" by (simp add: convert_def exR1g2_def)

lemma exR1_nz: "exR1 \<noteq> zeroResource" by (simp add: exR1_def zeroResource_def)

lemma exR2_nz: "exR2 \<noteq> zeroResource" by (simp add: exR2_def zeroResource_def)

lemma exRun_state: "run exRun (NewWorkerPool 2) = Some exState"
  using neq12 neq12 [symmetric] exR1_nz exR2_nz
  by (simp add: exRun_def NewWorkerPool_def exState_def maybeAddWorker_def workerStep_def
      Push_def Delete_def Pop_def PopFrom.simps Length_def emptyQueue_def Let_def insert_commute word_le_nat_alt)

lemma exZeroRun_state: "run exZeroRun (NewWorkerPool 2) = Some exZeroState"
  by (simp add: exZeroRun_def NewWorkerPool_def exZeroState_def exZeroQueue_def
      maybeAddWorker_def workerStep_def Push_def Length_def emptyQueue_def Let_def
      word_le_nat_alt)

lemma exZeroState_Pop:
  "Pop (queue exZeroState) (currentlyWorking exZeroState)
     = (zeroResource, Some [0 \<mapsto> 10], exZeroQueue [] [0 \<mapsto> 10])"
  by (simp add: exZeroState_def exZeroQueue_def Pop_def PopFrom.simps Let_def)

lemma exZeroLater_state: "run exZeroLater exZeroPopped = Some exZeroEnd"
proof -
  have "convert exR1 \<noteq> convert zeroResource"
    by (simp add: convert_def exR1_def zeroResource_def)
  then show ?thesis
    by (simp add: exZeroLater_def exZeroPopped_def exZeroState_def exZeroEnd_def exZeroQueue_def
        maybeAddWorker_def workerStep_def Push_def Delete_def Length_def Let_def)
qed

section \<open>The claims\<close>

subsection \<open>Mutual exclusion per key\<close>

text \<open>
  C1. In every state the pool reaches from \<^verbatim>\<open>NewWorkerPool\<close>, under any schedule of pushes,
  deletes, cancellation, worker starts and worker steps: a \<^verbatim>\<open>Pop\<close> given the in-flight set
  as its exclusion set returns no task whose key is in that set; no two workers are in the
  get, merge and write of the same key; and the in-flight set is the set of the keys the
  workers are on.
\<close>

theorem inflight_key_excluded_from_Pop:
  assumes "run es (NewWorkerPool m) = Some wp"
  shows "(\<forall>target work q'. Pop (queue wp) (currentlyWorking wp) = (target, Some work, q')
            \<longrightarrow> convert target \<notin> currentlyWorking wp)
     \<and> (\<forall>i < length (workers wp). \<forall>j < length (workers wp). i \<noteq> j \<longrightarrow>
            holding (workers wp ! i) = None \<or> holding (workers wp ! i) \<noteq> holding (workers wp ! j))
     \<and> (\<forall>k. k \<in> currentlyWorking wp \<longleftrightarrow>
            (\<exists>t < length (workers wp). holding (workers wp ! t) = Some k))"
proof -
  have "poolInv wp" using assms poolInv_New poolInv_exec by (rule run_induct)
  then have k: "keyed (queue wp)" and m: "marks (workers wp) (currentlyWorking wp)"
    by (simp_all add: poolInv_def)
  from k have "\<forall>target work q'. Pop (queue wp) (currentlyWorking wp) = (target, Some work, q')
            \<longrightarrow> convert target \<notin> currentlyWorking wp"
    using Pop_outside by blast
  with m show ?thesis unfolding marks_def by blast
qed

text \<open>
  The example schedule ends with both workers past their critical sections, each on its own
  key, although the first key was pushed again while its worker held the lock.
\<close>

theorem inflight_key_excluded_from_Pop_witness:
  "run exRun (NewWorkerPool 2) = Some exState
   \<and> holding (workers exState ! 0) = Some (convert exR1)
   \<and> holding (workers exState ! 1) = Some (convert exR2)
   \<and> holding (workers exState ! 0) \<noteq> holding (workers exState ! 1)"
proof -
  have r: "run exRun (NewWorkerPool 2) = Some exState" by (rule exRun_state)
  from inflight_key_excluded_from_Pop [OF r]
  have "\<forall>i < length (workers exState). \<forall>j < length (workers exState). i \<noteq> j \<longrightarrow>
      holding (workers exState ! i) = None
      \<or> holding (workers exState ! i) \<noteq> holding (workers exState ! j)"
    by blast
  from this [rule_format, of 0 1]
  have "holding (workers exState ! 0) = None
      \<or> holding (workers exState ! 0) \<noteq> holding (workers exState ! 1)"
    by (simp add: exState_def)
  with r show ?thesis by (simp add: exState_def)
qed

subsection \<open>Coalescing\<close>

text \<open>
  C2. Pushes for one key, of whatever generations and controllers, into a queue that has
  neither an entry nor a pending task for the key: afterwards the pending sequence is the old
  one with the key appended once, at the place the first push gave it; the key is pending
  exactly once; and its entry holds the resource of the first push and, for every controller,
  the progress of that controller's last push (\<open>map_of\<close> of the reversed list finds the last
  pair of a controller first).
\<close>

theorem Pushes_coalesce_to_one_task:
  assumes "cache wq k = None" and "k \<notin> set (tasks wq)" and "ps \<noteq> []"
    and "\<forall>p \<in> set ps. convert (fst p) = k"
  shows "tasks (Pushes wq ps) = tasks wq @ [k]
    \<and> count_list (tasks (Pushes wq ps)) k = 1
    \<and> cache (Pushes wq ps) k =
        Some \<lparr>cacheResource = fst (hd ps), perControllerStatus = map_of (rev (map snd ps))\<rparr>"
proof -
  from assms(3) obtain r c u ps' where ps: "ps = (r, c, u) # ps'"
    by (cases ps) auto
  with assms(4) have k: "convert r = k" and rest: "\<forall>p \<in> set ps'. convert (fst p) = k" by simp_all
  have c1: "cache (Push wq r c u) k = Some \<lparr>cacheResource = r, perControllerStatus = [c \<mapsto> u]\<rparr>"
    using assms(1) k by (simp add: Push_def Let_def)
  have t1: "tasks (Push wq r c u) = tasks wq @ [k]"
    using assms(1) k by (simp add: Push_def Let_def)
  have un: "Pushes wq ps = Pushes (Push wq r c u) ps'" by (simp add: ps)
  from Pushes_same_key [OF c1 rest]
  have A: "tasks (Pushes (Push wq r c u) ps') = tasks (Push wq r c u)" and
    B: "cache (Pushes (Push wq r c u) ps') k =
      Some \<lparr>cacheResource = r, perControllerStatus = [c \<mapsto> u] ++ map_of (rev (map snd ps'))\<rparr>"
    by blast+
  from A t1 have t: "tasks (Pushes wq ps) = tasks wq @ [k]" unfolding un by (rule trans)
  have E: "[c \<mapsto> u] ++ map_of (rev (map snd ps')) = map_of (rev (map snd ps))"
    by (simp add: ps map_of_append)
  have h: "r = fst (hd ps)" by (simp add: ps)
  from B have c': "cache (Pushes wq ps) k =
      Some \<lparr>cacheResource = fst (hd ps), perControllerStatus = map_of (rev (map snd ps))\<rparr>"
    unfolding un E h [symmetric] .
  have "count_list (tasks wq) k = 0" using assms(2) by (simp add: count_list_0_iff)
  with t have "count_list (tasks (Pushes wq ps)) k = 1" by simp
  with t c' show ?thesis by (intro conjI)
qed

text \<open>
  Three pushes for one key into the empty queue, the second at another generation and from
  another controller: one task, the resource of the first push, the last progress of each
  controller.
\<close>

theorem Pushes_coalesce_to_one_task_witness:
  "tasks (Pushes emptyQueue exPushes) = [convert exR1]
   \<and> count_list (tasks (Pushes emptyQueue exPushes)) (convert exR1) = 1
   \<and> map_option cacheResource (cache (Pushes emptyQueue exPushes) (convert exR1)) = Some exR1
   \<and> map_option (\<lambda>e. perControllerStatus e 0) (cache (Pushes emptyQueue exPushes) (convert exR1))
       = Some (Some 11)
   \<and> map_option (\<lambda>e. perControllerStatus e 1) (cache (Pushes emptyQueue exPushes) (convert exR1))
       = Some (Some 20)"
proof -
  have h1: "cache (emptyQueue :: (nat, nat) WorkQueue) (convert exR1) = None"
    by (simp add: emptyQueue_def)
  have h2: "convert exR1 \<notin> set (tasks (emptyQueue :: (nat, nat) WorkQueue))"
    by (simp add: emptyQueue_def)
  have h3: "exPushes \<noteq> []" by (simp add: exPushes_def)
  have h4: "\<forall>p \<in> set exPushes. convert (fst p) = convert exR1"
    by (simp add: exPushes_def key_g2)
  from Pushes_coalesce_to_one_task [OF h1 h2 h3 h4] show ?thesis
    by (simp add: exPushes_def emptyQueue_def)
qed

subsection \<open>Stale and absent resources\<close>

text \<open>
  C3. When the getter returns nil, and when it returns a config whose generation, written in
  decimal, is not the generation string of the task's resource, the worker logs nothing and
  does not call the writer. The task is not queued again: the step of the worker that does
  this work leaves the queue as it was.
\<close>

theorem stale_or_absent_config_not_written:
  "process fn getOG setOG target None items = Inr \<lparr>warnings = [], written = None\<rparr>
   \<and> (FormatInt (sint (cfgGeneration c)) \<noteq> Generation target \<longrightarrow>
        process fn getOG setOG target (Some c) items = Inr \<lparr>warnings = [], written = None\<rparr>)
   \<and> (t < length (workers wp) \<and> workers wp ! t = Working target \<longrightarrow>
        map_option queue (workerStep t wp) = Some (queue wp))"
  by (simp add: process_def workerStep_def)

text \<open>
  A task recorded at generation 1 whose resource is now at generation 2, and the second worker
  of the example state, which is at work.
\<close>

theorem stale_or_absent_config_not_written_witness:
  "FormatInt (sint (cfgGeneration exCfg2)) = ''2'' \<and> Generation exR1 = ''1''
   \<and> process exFn exGetOG SetObservedGeneration exR1 (Some exCfg2) [(0, 10)]
       = (Inr \<lparr>warnings = [], written = None\<rparr>
          :: panic + (IstioStatus, IstioGenerationProvider, IstioStatus) outcome)
   \<and> workers exState ! 1 = Working exR2
   \<and> map_option queue (workerStep 1 exState) = Some (queue exState)"
proof -
  have f: "FormatInt (sint (cfgGeneration exCfg2)) = ''2''"
    by (simp add: exCfg2_def FormatInt_def formatUint.simps digits_def)
  have g: "Generation exR1 = ''1''" by (simp add: exR1_def)
  from f g have h: "FormatInt (sint (cfgGeneration exCfg2)) \<noteq> Generation exR1" by simp
  have w: "1 < length (workers exState) \<and> workers exState ! 1 = Working exR2"
    by (simp add: exState_def)
  have a: "process exFn exGetOG SetObservedGeneration exR1 (Some exCfg2) [(0, 10)]
       = (Inr \<lparr>warnings = [], written = None\<rparr>
          :: panic + (IstioStatus, IstioGenerationProvider, IstioStatus) outcome)"
    using stale_or_absent_config_not_written
      [where c = exCfg2 and target = exR1 and fn = exFn and getOG = exGetOG
         and setOG = SetObservedGeneration and items = "[(0, 10)]", THEN conjunct2, THEN conjunct1]
      h by (rule mp)
  have b: "map_option queue (workerStep 1 exState) = Some (queue exState)"
    using stale_or_absent_config_not_written
      [where target = exR2 and t = 1 and wp = exState,
        THEN conjunct2, THEN conjunct2]
      w by (rule mp)
  from f g a w b show ?thesis by simp
qed

subsection \<open>The worker bound\<close>

text \<open>
  C4. In every state the pool reaches from \<^verbatim>\<open>NewWorkerPool\<close> the worker count is at most the
  maximum the pool was built with, and it is the number of workers that have not returned:
  the count goes up by one with each worker started, which happens only below the maximum,
  and down by one with each worker that returns, without wrapping around.
\<close>

theorem workerCount_le_maxWorkers:
  assumes "run es (NewWorkerPool m) = Some wp"
  shows "workerCount wp \<le> maxWorkers wp \<and> maxWorkers wp = m
    \<and> unat (workerCount wp) = length (filter alive (workers wp))"
proof -
  have i: "countInv (NewWorkerPool m :: ('a, 'b) WorkerPool)"
    by (simp add: countInv_def NewWorkerPool_def)
  have "countInv wp"
    using assms i countInv_exec by (rule run_induct)
  moreover have "maxWorkers wp = m"
  proof -
    have "maxWorkers (NewWorkerPool m :: ('a, 'b) WorkerPool) = m" by (simp add: NewWorkerPool_def)
    with assms show ?thesis
      by (rule run_induct) (simp add: maxWorkers_exec)
  qed
  ultimately show ?thesis by (simp add: countInv_def)
qed

text \<open>The example schedule asks for a worker twice, with a maximum of two.\<close>

theorem workerCount_le_maxWorkers_witness:
  "run exRun (NewWorkerPool 2) = Some exState \<and> workerCount exState \<le> 2
   \<and> unat (workerCount exState) = 2"
proof -
  have r: "run exRun (NewWorkerPool 2) = Some exState" by (rule exRun_state)
  from workerCount_le_maxWorkers [OF r] r show ?thesis by (simp add: exState_def)
qed

subsection \<open>Keys in the pending sequence\<close>

text \<open>
  C5, as amended. In every state the queue reaches from the empty queue by calls of \<^verbatim>\<open>Push\<close>,
  \<^verbatim>\<open>Pop\<close> and \<^verbatim>\<open>Delete\<close> in which no \<^verbatim>\<open>Delete\<close> names a key that is pending at the time of the
  call, every key is in the pending sequence at most once. (The \<^verbatim>\<open>Delete\<close> of the worker comes
  after the \<^verbatim>\<open>Pop\<close> that took the key out, so it is of this kind.)
\<close>

theorem tasks_distinct_when_Delete_spares_pending:
  "deletesUnqueued emptyQueue ops \<Longrightarrow> distinct (tasks (applyOps emptyQueue ops))"
proof -
  assume a: "deletesUnqueued emptyQueue ops"
  have "pendingOnce (emptyQueue :: ('a, 'b) WorkQueue)"
    by (simp add: pendingOnce_def emptyQueue_def)
  from pendingOnce_applyOps [OF this a] show ?thesis by (simp add: pendingOnce_def)
qed

text \<open>
  Two pushes, a pop that takes the first key, the delete of that key and a new push for it:
  the key is pending once, behind the other.
\<close>

theorem tasks_distinct_when_Delete_spares_pending_witness:
  "tasks (applyOps emptyQueue exOps) = [convert exR2, convert exR1]
   \<and> distinct (tasks (applyOps emptyQueue exOps))"
proof -
  have h: "deletesUnqueued emptyQueue exOps"
    using neq12
    by (simp add: exOps_def emptyQueue_def Push_def Pop_def PopFrom.simps Delete_def Let_def)
  have "tasks (applyOps emptyQueue exOps) = [convert exR2, convert exR1]"
    using neq12 neq12 [symmetric]
    by (simp add: exOps_def emptyQueue_def Push_def Pop_def PopFrom.simps Delete_def Let_def)
  with tasks_distinct_when_Delete_spares_pending [OF h] show ?thesis by (rule conjI [rotated])
qed

text \<open>
  Without the restriction the property fails: a push, the delete of the pushed resource while
  its key is pending, and a second push leave the key in the sequence twice.
\<close>

theorem Push_after_Delete_duplicates_key:
  "tasks (Push (Delete (Push (emptyQueue :: (nat, nat) WorkQueue) exR1 0 10) exR1) exR1 0 11)
     = [convert exR1, convert exR1]
   \<and> \<not> distinct (tasks (Push (Delete (Push (emptyQueue :: (nat, nat) WorkQueue) exR1 0 10) exR1) exR1 0 11))"
  by (simp add: Push_def Delete_def emptyQueue_def Let_def)

subsection \<open>A pending key whose entry was deleted\<close>

text \<open>
  C6, as amended. When the first pending key outside the exclusion set has no entry in the
  cache, \<^verbatim>\<open>Pop\<close> cuts that key out of the sequence and returns the zero-value resource and the
  nil map at once. It does not go on to a later key: the later keys stay pending, for a later
  call.
\<close>

theorem Pop_deleted_key_gives_sentinel:
  assumes "j < length (tasks wq)" and "\<forall>n < j. tasks wq ! n \<in> ex"
    and "tasks wq ! j \<notin> ex" and "cache wq (tasks wq ! j) = None"
  shows "Pop wq ex =
     (zeroResource, None, wq\<lparr>tasks := take j (tasks wq) @ drop (Suc j) (tasks wq)\<rparr>)"
proof -
  have "Pop wq ex = (case cache wq (tasks wq ! j) of
        None \<Rightarrow> (zeroResource, None, wq\<lparr>tasks := take j (tasks wq) @ drop (Suc j) (tasks wq)\<rparr>)
      | Some e \<Rightarrow> (cacheResource e, Some (perControllerStatus e),
                  wq\<lparr>tasks := take j (tasks wq) @ drop (Suc j) (tasks wq)\<rparr>))"
    unfolding Pop_def using assms by (intro PopFrom_hit) auto
  with assms(4) show ?thesis by simp
qed

text \<open>
  Three keys pending, the first excluded, the second deleted: the pop returns the sentinel and
  leaves the first and the third.
\<close>

theorem Pop_deleted_key_gives_sentinel_witness:
  "tasks exQ3 = [convert exR3, convert exR1, convert exR2]
   \<and> Pop exQ3 {convert exR3}
       = (zeroResource, None, exQ3\<lparr>tasks := [convert exR3, convert exR2]\<rparr>)"
proof -
  have t: "tasks exQ3 = [convert exR3, convert exR1, convert exR2]"
    using neq12 neq13 neq23 neq13 [symmetric] neq23 [symmetric]
    by (simp add: exQ3_def emptyQueue_def Push_def Delete_def Let_def)
  have c: "cache exQ3 (convert exR1) = None"
    by (simp add: exQ3_def Delete_def)
  have h1: "1 < length (tasks exQ3)" by (simp add: t)
  have h2: "\<forall>n < 1. tasks exQ3 ! n \<in> {convert exR3}" by (simp add: t)
  have h3: "tasks exQ3 ! 1 \<notin> {convert exR3}" using neq13 by (simp add: t)
  have h4: "cache exQ3 (tasks exQ3 ! 1) = None" using c by (simp add: t)
  from Pop_deleted_key_gives_sentinel [OF h1 h2 h3 h4] t show ?thesis by simp
qed

text \<open>
  The claim as stated fails: with the first of two pending keys deleted and the second still
  holding its entry, the pop returns the sentinel, not the second resource.
\<close>

theorem Pop_returns_sentinel_before_later_key:
  "tasks exQ2 = [convert exR1, convert exR2] \<and> cache exQ2 (convert exR1) = None
   \<and> cache exQ2 (convert exR2) = Some \<lparr>cacheResource = exR2, perControllerStatus = [0 \<mapsto> 20]\<rparr>
   \<and> Pop exQ2 {} = (zeroResource, None, exQ2\<lparr>tasks := [convert exR2]\<rparr>)
   \<and> fst (Pop exQ2 {}) \<noteq> exR2"
  using neq12 exR2_nz [symmetric]
  by (simp add: exQ2_def Pop_def PopFrom.simps Push_def Delete_def emptyQueue_def Let_def)

subsection \<open>What a successful pop removes\<close>

text \<open>
  C7, as amended. When \<^verbatim>\<open>Pop\<close> returns a task it cuts one occurrence of the task's key out of
  the pending sequence and leaves the cache as it was: the entry of the key is still there
  after the call, holding what the call returned. The \<^verbatim>\<open>Delete\<close> that the worker calls next
  removes the entry and leaves the sequence alone.
\<close>

theorem Pop_keeps_cache_Delete_clears_it:
  assumes "keyed wq" and "Pop wq ex = (target, Some work, wq')"
  shows "cache wq' = cache wq
    \<and> cache wq' (convert target) = Some \<lparr>cacheResource = target, perControllerStatus = work\<rparr>
    \<and> (\<exists>j < length (tasks wq). tasks wq ! j = convert target
          \<and> tasks wq' = take j (tasks wq) @ drop (Suc j) (tasks wq))
    \<and> cache (Delete wq' target) (convert target) = None
    \<and> tasks (Delete wq' target) = tasks wq'"
proof -
  from Pop_Some [OF assms(2)] obtain j where j: "j < length (tasks wq)"
    "cache wq (tasks wq ! j) = Some \<lparr>cacheResource = target, perControllerStatus = work\<rparr>"
    "wq' = wq\<lparr>tasks := take j (tasks wq) @ drop (Suc j) (tasks wq)\<rparr>" by blast
  from assms(1) have "\<And>k e. cache wq k = Some e \<Longrightarrow> convert (cacheResource e) = k"
    by (simp add: keyed_def)
  from this [OF j(2)] have k: "tasks wq ! j = convert target" by simp
  show ?thesis using j k by (auto simp: Delete_def)
qed

text \<open>One resource pushed and popped, then deleted as the worker does.\<close>

theorem Pop_keeps_cache_Delete_clears_it_witness:
  "Pop exQ1 {} = (exR1, Some [0 \<mapsto> 10], exQ1\<lparr>tasks := []\<rparr>)
   \<and> cache (exQ1\<lparr>tasks := []\<rparr>) (convert exR1)
       = Some \<lparr>cacheResource = exR1, perControllerStatus = [0 \<mapsto> 10]\<rparr>
   \<and> cache (Delete (exQ1\<lparr>tasks := []\<rparr>) exR1) (convert exR1) = None"
proof -
  have k: "keyed exQ1" unfolding exQ1_def by (intro keyed_Push keyed_empty)
  have p: "Pop exQ1 {} = (exR1, Some [0 \<mapsto> 10], exQ1\<lparr>tasks := []\<rparr>)"
    by (simp add: exQ1_def Pop_def PopFrom.simps Push_def emptyQueue_def Let_def)
  from Pop_keeps_cache_Delete_clears_it [OF k p] p show ?thesis by simp
qed

text \<open>
  The claim as stated fails: the queue that \<^verbatim>\<open>Pop\<close> returns still has the entry of the key it
  has just handed out, and this is the queue a \<^verbatim>\<open>Push\<close> from another goroutine finds before
  the worker's \<^verbatim>\<open>Delete\<close>: it merges into the entry and appends nothing.
\<close>

theorem Pop_leaves_cache_entry:
  "fst (Pop exQ1 {}) = exR1
   \<and> cache (snd (snd (Pop exQ1 {}))) (convert exR1)
       = Some \<lparr>cacheResource = exR1, perControllerStatus = [0 \<mapsto> 10]\<rparr>
   \<and> tasks (snd (snd (Pop exQ1 {}))) = []
   \<and> tasks (Push (snd (snd (Pop exQ1 {}))) exR1 0 11) = []"
  by (simp add: exQ1_def Pop_def PopFrom.simps Push_def emptyQueue_def Let_def)

subsection \<open>A status without an observed generation\<close>

text \<open>
  C8, as amended. When the generation matches and \<^verbatim>\<open>GetOGProvider\<close> returns an error, the
  worker logs one warning that carries the error, does not panic, does not call
  \<^verbatim>\<open>SetObservedGeneration\<close>, folds the merge functions over whatever provider value came back
  with the error, and calls the writer with the result.
\<close>

theorem provider_error_still_writes:
  assumes "FormatInt (sint (cfgGeneration c)) = Generation target"
    and "getOG (cfgStatus c) = (x, Some err)"
  shows "process fn getOG setOG target (Some c) items =
     Inr \<lparr>warnings = [''status has no observed generation, overwriting: '' @ err],
          written = Some (c, toAny (fold (\<lambda>(ctl, i) x. fn ctl x i) items x))\<rparr>"
  using assms by (simp add: process_def)

text \<open>A provider that comes back together with the error, and two controllers.\<close>

theorem provider_error_still_writes_witness:
  "process exFn exGetOGStale SetObservedGeneration exR1 (Some exCfg) [(0, 10), (1, 20)]
     = (Inr \<lparr>warnings = [''status has no observed generation, overwriting: no observed generation''],
            written = Some (exCfg,
              GenerationProviderV (IstioGenerationProvider \<lparr>ObservedGeneration = 0\<rparr>))\<rparr>
        :: panic + (IstioStatus, IstioGenerationProvider, IstioStatus) outcome)"
proof -
  have h1: "FormatInt (sint (cfgGeneration exCfg)) = Generation exR1"
    by (simp add: exCfg_def exR1_def FormatInt_def formatUint.simps digits_def)
  have h2: "exGetOGStale (cfgStatus exCfg)
      = (Some (IstioGenerationProvider \<lparr>ObservedGeneration = 0\<rparr>), Some ''no observed generation'')"
    by (simp add: exGetOGStale_def exCfg_def)
  have "process exFn exGetOGStale SetObservedGeneration exR1 (Some exCfg) [(0, 10), (1, 20)]
     = (Inr \<lparr>warnings = [''status has no observed generation, overwriting: '' @ ''no observed generation''],
            written = Some (exCfg, toAny (fold (\<lambda>(ctl, i) x. exFn ctl x i) [(0, 10), (1, 20)]
               (Some (IstioGenerationProvider \<lparr>ObservedGeneration = 0\<rparr>))))\<rparr>
        :: panic + (IstioStatus, IstioGenerationProvider, IstioStatus) outcome)"
    using h1 h2 by (rule provider_error_still_writes)
  then show ?thesis by (simp add: exFn_def toAny_def)
qed

text \<open>
  The claim as stated fails: the fetched generation is 1, and after an error the writer
  receives nil when the provider came back nil, and a provider whose observed generation is
  still 0 when one came back with the error.
\<close>

theorem provider_error_skips_SetObservedGeneration:
  "process exFn exGetOGFails SetObservedGeneration exR1 (Some exCfg) [(0, 10)]
     = (Inr \<lparr>warnings = [''status has no observed generation, overwriting: no observed generation''],
            written = Some (exCfg, NilV)\<rparr>
        :: panic + (IstioStatus, IstioGenerationProvider, IstioStatus) outcome)
   \<and> process exFn exGetOGStale SetObservedGeneration exR1 (Some exCfg) [(0, 10)]
     = (Inr \<lparr>warnings = [''status has no observed generation, overwriting: no observed generation''],
            written = Some (exCfg,
              GenerationProviderV (IstioGenerationProvider \<lparr>ObservedGeneration = 0\<rparr>))\<rparr>
        :: panic + (IstioStatus, IstioGenerationProvider, IstioStatus) outcome)
   \<and> cfgGeneration exCfg = 1
   \<and> IstioGenerationProvider \<lparr>ObservedGeneration = 0\<rparr>
       \<noteq> SetObservedGeneration (cfgGeneration exCfg) (IstioGenerationProvider \<lparr>ObservedGeneration = 0\<rparr>)"
  by (simp add: process_def exCfg_def exR1_def FormatInt_def formatUint.simps digits_def
      exGetOGFails_def exGetOGStale_def exFn_def toAny_def)

subsection \<open>The write of a task that is up to date\<close>




subsection \<open>The zero-value resource as a task\<close>

text \<open>
  C10. In a state the pool reaches from \<^verbatim>\<open>NewWorkerPool\<close>, let a worker be about to pop, and
  let the pop deliver the task of a pushed zero-value resource: the zero value together with a
  map that is not nil. Then the worker takes it for the sentinel: it releases the lock and is
  back at the top of its loop, without the \<^verbatim>\<open>Delete\<close>, the mark, the getter or the writer.
  From then on, under any schedule that has no \<^verbatim>\<open>Delete\<close> from outside for the key of the zero
  value, the entry stays in the cache with the zero value as its resource, and no worker is
  ever at work on the zero value.
\<close>

theorem zero_Resource_task_dropped_entry_stays:
  assumes "run es (NewWorkerPool m) = Some wp"
    and "t < length (workers wp)" and "workers wp ! t = Checked"
    and "Pop (queue wp) (currentlyWorking wp) = (zeroResource, Some work, q')"
    and "list_all sparesZeroKey es'"
    and "run es' (wp\<lparr>queue := q', lock := None, workers := (workers wp)[t := Idle]\<rparr>) = Some wp'"
  shows "workerStep t wp = Some (wp\<lparr>queue := q', lock := None, workers := (workers wp)[t := Idle]\<rparr>)
    \<and> map_option cacheResource (cache (queue wp') (convert zeroResource)) = Some zeroResource
    \<and> (\<forall>i < length (workers wp'). workers wp' ! i \<noteq> Working zeroResource)"
proof -
  let ?wp1 = "wp\<lparr>queue := q', lock := None, workers := (workers wp)[t := Idle]\<rparr>"
  have inv: "poolInv wp" using assms(1) poolInv_New poolInv_exec by (rule run_induct)
  have s: "workerStep t wp = Some ?wp1"
    using assms(2,3,4) by (simp add: workerStep_def)
  from inv s have inv1: "poolInv ?wp1" by (rule poolInv_workerStep)
  from inv have k: "keyed (queue wp)" and l: "locks (workers wp) (lock wp)"
    by (simp_all add: poolInv_def)
  from l assms(2,3) have mine: "lock wp = Some t" by (simp add: locks_def)
  from Pop_Some [OF assms(4)] obtain j where
    j: "cache (queue wp) (tasks (queue wp) ! j)
          = Some \<lparr>cacheResource = zeroResource, perControllerStatus = work\<rparr>"
    by blast
  from k have "\<And>k e. cache (queue wp) k = Some e \<Longrightarrow> convert (cacheResource e) = k"
    by (simp add: keyed_def)
  from this [OF j] have kk: "tasks (queue wp) ! j = convert zeroResource" by simp
  from Pop_cache [of "queue wp" "currentlyWorking wp"] assms(4)
  have c: "cache q' = cache (queue wp)" by simp
  have "stuck ?wp1"
    unfolding stuck_def
  proof (intro conjI allI impI)
    show "map_option cacheResource (cache (queue ?wp1) (convert zeroResource)) = Some zeroResource"
      using j kk c by simp
  next
    fix n r
    assume n: "n < length (workers ?wp1)" "workers ?wp1 ! n = Popped r"
    with assms(2) have ne: "n \<noteq> t" by auto
    with n have "n < length (workers wp)" "holdsLock (workers wp ! n)" by simp_all
    with l have "lock wp = Some n" by (simp add: locks_def)
    with mine ne show "convert r \<noteq> convert zeroResource" by simp
  qed
  from stuck_run [OF inv1 this assms(5,6)] have st: "stuck wp'" .
  have "nonzero (NewWorkerPool m :: ('a, 'b) WorkerPool)"
    by (simp add: nonzero_def NewWorkerPool_def)
  from nonzero_run [OF this assms(1)] have "nonzero wp" .
  moreover have "exec (Step t) wp = Some ?wp1" using s by simp
  ultimately have "nonzero ?wp1" by (rule nonzero_exec)
  from nonzero_run [OF this assms(6)] have "nonzero wp'" .
  with st s show ?thesis by (simp add: stuck_def nonzero_def)
qed

text \<open>
  The zero-value resource is pushed, a worker starts and pops it; then the worker returns,
  the zero-value resource is pushed again by another controller, no worker is started (nothing
  is pending) and another resource is deleted. The entry is still there, with both updates,
  and nothing was or will be written for it.
\<close>

theorem zero_Resource_task_dropped_entry_stays_witness:
  "run exZeroRun (NewWorkerPool 2) = Some exZeroState
   \<and> workerStep 0 exZeroState = Some exZeroPopped
   \<and> run exZeroLater exZeroPopped = Some exZeroEnd
   \<and> tasks (queue exZeroEnd) = []
   \<and> map_option cacheResource (cache (queue exZeroEnd) (convert zeroResource)) = Some zeroResource
   \<and> workers exZeroEnd = [Exited]"
proof -
  have h1: "run exZeroRun (NewWorkerPool 2) = Some exZeroState" by (rule exZeroRun_state)
  have h2: "0 < length (workers exZeroState)" by (simp add: exZeroState_def)
  have h3: "workers exZeroState ! 0 = Checked" by (simp add: exZeroState_def)
  have h4: "Pop (queue exZeroState) (currentlyWorking exZeroState)
      = (zeroResource, Some [0 \<mapsto> 10], exZeroQueue [] [0 \<mapsto> 10])"
    by (rule exZeroState_Pop)
  have h5: "list_all sparesZeroKey exZeroLater"
    by (simp add: exZeroLater_def convert_def exR1_def zeroResource_def)
  have h6: "run exZeroLater (exZeroState\<lparr>queue := exZeroQueue [] [0 \<mapsto> 10], lock := None,
      workers := (workers exZeroState)[0 := Idle]\<rparr>) = Some exZeroEnd"
    using exZeroLater_state by (simp add: exZeroPopped_def)
  from zero_Resource_task_dropped_entry_stays [OF h1 h2 h3 h4 h5 h6]
  have "workerStep 0 exZeroState = Some exZeroPopped"
    and "map_option cacheResource (cache (queue exZeroEnd) (convert zeroResource)) = Some zeroResource"
    by (simp_all add: exZeroPopped_def)
  with h1 exZeroLater_state show ?thesis by (simp add: exZeroEnd_def exZeroQueue_def)
qed

end
